theory Spec2Isabelle
  imports Main
begin

section \<open>The TINY parser (parse.c): data model\<close>

text \<open>
  Modelled from the spec: the token kinds of \<^verbatim>\<open>globals.h\<close> (not part of the sources at
  hand). The constructors are the kinds \<^verbatim>\<open>parse.c\<close> names, which are also the kinds
  the specification lists: end of input, the reserved words, identifier, number and the
  special symbols. The kind \<^verbatim>\<open>THEN\<close> is \<open>THEN_TOK\<close> here, since the name itself
  is taken in the target language of the code generator.
\<close>

datatype TokenType =
    ENDFILE
  | IF | THEN_TOK | ELSE | END | REPEAT | UNTIL | READ | WRITE
  | WHILE | DO | ENDWHILE | FOR | TO | DOWNTO | ENDDO
  | ID | NUM
  | ASSIGN | EQ | LT | GT | PLUS | MINUS | TIMES | OVER | MOD
  | LPAREN | RPAREN | SEMI

text \<open>
  Modelled from the spec: the syntax tree node of \<^verbatim>\<open>globals.h\<close>. A node has three child
  slots, a sibling link, its variant (statement or expression kind) and the attribute
  union (operator, value or name); a null pointer is \<open>None\<close>. \<open>NoAttr\<close> is the
  attribute of a node on which none was stored. The line number stored in a node is
  left out: it is produced by the scanner, which is outside \<^verbatim>\<open>parse.c\<close>.
\<close>

datatype StmtKind = IfK | RepeatK | AssignK | ReadK | WriteK | WhileK | DoWhileK | ForK

datatype ExpKind = OpK | ConstK | IdK

datatype NodeKind = StmtK StmtKind | ExpK ExpKind

datatype Attr = NoAttr | Op TokenType | Val int | Name string

datatype TreeNode = TreeNode
  (child0: "TreeNode option") (child1: "TreeNode option") (child2: "TreeNode option")
  (sibling: "TreeNode option") (kind: NodeKind) (attr: Attr)

text \<open>Field assignments \<^verbatim>\<open>t->child[i] = c\<close>, \<^verbatim>\<open>t->attr.x = a\<close>.\<close>

fun set_child0 :: "TreeNode option \<Rightarrow> TreeNode \<Rightarrow> TreeNode" where
  "set_child0 c (TreeNode c0 c1 c2 sib k a) = TreeNode c c1 c2 sib k a"

fun set_child1 :: "TreeNode option \<Rightarrow> TreeNode \<Rightarrow> TreeNode" where
  "set_child1 c (TreeNode c0 c1 c2 sib k a) = TreeNode c0 c c2 sib k a"

fun set_child2 :: "TreeNode option \<Rightarrow> TreeNode \<Rightarrow> TreeNode" where
  "set_child2 c (TreeNode c0 c1 c2 sib k a) = TreeNode c0 c1 c sib k a"

fun set_attr :: "Attr \<Rightarrow> TreeNode \<Rightarrow> TreeNode" where
  "set_attr a (TreeNode c0 c1 c2 sib k a0) = TreeNode c0 c1 c2 sib k a"

text \<open>
  In \<^verbatim>\<open>stmt_sequence\<close> the pointer \<^verbatim>\<open>p\<close> is the last node of the sibling chain that
  starts at \<^verbatim>\<open>t\<close>, and \<^verbatim>\<open>p->sibling = q\<close> stores \<^verbatim>\<open>q\<close> in that last node.
  On the tree value this is \<open>link_last\<close>: walk to the node without sibling, link there.
\<close>

fun link_last :: "TreeNode \<Rightarrow> TreeNode \<Rightarrow> TreeNode" where
  "link_last (TreeNode c0 c1 c2 sib k a) q =
     (case sib of
        None \<Rightarrow> TreeNode c0 c1 c2 (Some q) k a
      | Some n \<Rightarrow> TreeNode c0 c1 c2 (Some (link_last n q)) k a)"

text \<open>
  Modelled from the spec: \<^verbatim>\<open>newStmtNode\<close> and \<^verbatim>\<open>newExpNode\<close> of \<^verbatim>\<open>util.c\<close>
  (not part of the sources at hand): a fresh node of the given variant, no child, no
  sibling, nothing in the attribute. Allocation is taken to succeed, so the guards
  \<^verbatim>\<open>t != NULL\<close> on a freshly created node hold and are not repeated below.
\<close>

definition newStmtNode :: "StmtKind \<Rightarrow> TreeNode" where
  "newStmtNode k = TreeNode None None None None (StmtK k) NoAttr"

definition newExpNode :: "ExpKind \<Rightarrow> TreeNode" where
  "newExpNode k = TreeNode None None None None (ExpK k) NoAttr"

text \<open>
  \<^verbatim>\<open>atoi\<close> on the lexeme of a number: the value of the leading decimal digits, as a C
  \<^verbatim>\<open>int\<close> of 32 bits. The scanner hands over digits only. Beyond the range of an
  \<^verbatim>\<open>int\<close> the C standard leaves the result open; the model follows the C library
  where \<^verbatim>\<open>long\<close> has 64 bits: the conversion to \<^verbatim>\<open>long\<close> stops at the largest
  \<^verbatim>\<open>long\<close>, and the \<^verbatim>\<open>int\<close> returned keeps the low 32 bits, read with a sign
  (\<open>to_int\<close>). So the lexeme \<^verbatim>\<open>2147483648\<close> gives \<open>-2147483648\<close>.
\<close>

definition is_digit :: "char \<Rightarrow> bool" where
  "is_digit c = ((48::nat) \<le> of_char c \<and> of_char c \<le> (57::nat))"

fun atoi_from :: "int \<Rightarrow> string \<Rightarrow> int" where
  "atoi_from acc [] = acc"
| "atoi_from acc (c # cs) =
     (if is_digit c then atoi_from (acc * 10 + (int (of_char c) - 48)) cs else acc)"

definition to_int :: "int \<Rightarrow> int" where
  "to_int v = (v + 2147483648) mod 4294967296 - 2147483648"

definition atoi :: "string \<Rightarrow> int" where
  "atoi str = to_int (min (atoi_from 0 str) 9223372036854775807)"

text \<open>\<^verbatim>\<open>copyString\<close> of \<^verbatim>\<open>util.c\<close>: a copy of the string, the same value.\<close>

definition copyString :: "string \<Rightarrow> string" where
  "copyString str = str"

subsection \<open>The state the parser works on\<close>

text \<open>
  What is written to \<^verbatim>\<open>listing\<close>: the line of \<^verbatim>\<open>syntaxError\<close> with its message and
  the token text of \<^verbatim>\<open>printToken\<close>. (The line number in the message comes from the
  scanner's \<^verbatim>\<open>lineno\<close> and is left out, as is white space.)
\<close>

datatype listing_item = SyntaxErrorLine string | TokenText TokenType string

text \<open>
  The globals: the lookahead \<^verbatim>\<open>token\<close> with the scanner's \<^verbatim>\<open>tokenString\<close>, the
  tokens the scanner has not yet delivered (\<open>input\<close>), the flag \<^verbatim>\<open>Error\<close> and what
  has been written to \<^verbatim>\<open>listing\<close>.
\<close>

record pstate =
  token :: TokenType
  tokenString :: string
  input :: "(TokenType \<times> string) list"
  Error :: bool
  listing :: "listing_item list"

text \<open>
  \<^verbatim>\<open>token = getToken()\<close>. Modelled from the spec: the scanner delivers the next token
  of its source and, once the source is exhausted, end of input at every further call.
\<close>

definition getToken :: "pstate \<Rightarrow> pstate" where
  "getToken s =
     (case input s of
        [] \<Rightarrow> s\<lparr>token := ENDFILE, tokenString := []\<rparr>
      | (k, str) # rest \<Rightarrow> s\<lparr>token := k, tokenString := str, input := rest\<rparr>)"

definition syntaxError :: "string \<Rightarrow> pstate \<Rightarrow> pstate" where
  "syntaxError message s =
     s\<lparr>listing := listing s @ [SyntaxErrorLine message], Error := True\<rparr>"

text \<open>\<^verbatim>\<open>printToken(token,tokenString)\<close>, as every call in \<^verbatim>\<open>parse.c\<close> is.\<close>

definition printToken :: "pstate \<Rightarrow> pstate" where
  "printToken s = s\<lparr>listing := listing s @ [TokenText (token s) (tokenString s)]\<rparr>"

definition match :: "TokenType \<Rightarrow> pstate \<Rightarrow> pstate" where
  "match expected s =
     (if token s = expected then getToken s
      else printToken (syntaxError ''unexpected token -> '' s))"

text \<open>
  The tokens still to be consumed, the lookahead included (end of input is not one):
  the measure of the termination proofs.
\<close>

definition remaining :: "pstate \<Rightarrow> nat" where
  "remaining s = length (input s) + (if token s = ENDFILE then 0 else 1)"

lemma remaining_getToken: "remaining (getToken s) \<le> remaining s"
  by (auto simp: remaining_def getToken_def split: list.splits)

lemma remaining_getToken_less:
  "token s \<noteq> ENDFILE \<Longrightarrow> remaining (getToken s) < remaining s"
  by (auto simp: remaining_def getToken_def split: list.splits)

lemma remaining_syntaxError [simp]: "remaining (syntaxError m s) = remaining s"
  by (simp add: remaining_def syntaxError_def)

lemma remaining_printToken [simp]: "remaining (printToken s) = remaining s"
  by (simp add: remaining_def printToken_def)

lemma remaining_match: "remaining (match e s) \<le> remaining s"
  by (simp add: match_def remaining_getToken)

lemma remaining_match_less:
  "token s = e \<Longrightarrow> e \<noteq> ENDFILE \<Longrightarrow> remaining (match e s) < remaining s"
  by (simp add: match_def remaining_getToken_less)

lemma token_syntaxError [simp]: "token (syntaxError m s) = token s"
  by (simp add: syntaxError_def)

lemma token_printToken [simp]: "token (printToken s) = token s"
  by (simp add: printToken_def)

lemma token_match_neq: "token s \<noteq> e \<Longrightarrow> token (match e s) = token s"
  by (simp add: match_def)

section \<open>The expression rules\<close>

text \<open>
  Each rule takes the state and returns the subtree with the new state. A
  \<^verbatim>\<open>while\<close> loop is the function \<open>_loop\<close> of its rule, on the variables the loop
  changes. \<^verbatim>\<open>term\<close> is \<open>term_rule\<close>. A \<^verbatim>\<open>switch\<close> is the chain of its cases.
\<close>

function exp :: "pstate \<Rightarrow> TreeNode option \<times> pstate"
  and simple_exp :: "pstate \<Rightarrow> TreeNode option \<times> pstate"
  and simple_exp_loop :: "TreeNode option \<Rightarrow> pstate \<Rightarrow> TreeNode option \<times> pstate"
  and term_rule :: "pstate \<Rightarrow> TreeNode option \<times> pstate"
  and term_loop :: "TreeNode option \<Rightarrow> pstate \<Rightarrow> TreeNode option \<times> pstate"
  and factor :: "pstate \<Rightarrow> TreeNode option \<times> pstate"
where
  "exp s =
     (let (t, s1) = simple_exp s in
      if token s1 = LT \<or> token s1 = EQ \<or> token s1 = GT then
        let p = set_attr (Op (token s1)) (set_child0 t (newExpNode OpK));
            s2 = match (token s1) s1;
            (r, s3) = simple_exp s2
        in (Some (set_child1 r p), s3)
      else (t, s1))"
| "simple_exp s = (let (t, s1) = term_rule s in simple_exp_loop t s1)"
| "simple_exp_loop t s =
     (if token s = PLUS \<or> token s = MINUS then
        let p = set_attr (Op (token s)) (set_child0 t (newExpNode OpK));
            s1 = match (token s) s;
            (r, s2) = term_rule s1
        in simple_exp_loop (Some (set_child1 r p)) s2
      else (t, s))"
| "term_rule s = (let (t, s1) = factor s in term_loop t s1)"
| "term_loop t s =
     (if token s = TIMES \<or> token s = OVER \<or> token s = MOD then
        let p = set_attr (Op (token s)) (set_child0 t (newExpNode OpK));
            s1 = match (token s) s;
            (r, s2) = factor s1
        in term_loop (Some (set_child1 r p)) s2
      else (t, s))"
| "factor s =
     (if token s = NUM then
        (Some (set_attr (Val (atoi (tokenString s))) (newExpNode ConstK)), match NUM s)
      else if token s = ID then
        (Some (set_attr (Name (copyString (tokenString s))) (newExpNode IdK)), match ID s)
      else if token s = LPAREN then
        let s1 = match LPAREN s;
            (t, s2) = exp s1
        in (t, match RPAREN s2)
      else
        (None, getToken (printToken (syntaxError ''unexpected token -> '' s))))"
  by pat_completeness auto

text \<open>
  No rule moves the cursor back. This is needed before termination is known, so it
  is stated on the domain of the recursion.
\<close>

lemma expr_remaining_partial:
  shows "exp_simple_exp_simple_exp_loop_term_rule_term_loop_factor_dom (Inl (Inl s))
           \<Longrightarrow> remaining (snd (exp s)) \<le> remaining s"
    and "exp_simple_exp_simple_exp_loop_term_rule_term_loop_factor_dom (Inl (Inr (Inl s)))
           \<Longrightarrow> remaining (snd (simple_exp s)) \<le> remaining s"
    and "exp_simple_exp_simple_exp_loop_term_rule_term_loop_factor_dom (Inl (Inr (Inr (t, s))))
           \<Longrightarrow> remaining (snd (simple_exp_loop t s)) \<le> remaining s"
    and "exp_simple_exp_simple_exp_loop_term_rule_term_loop_factor_dom (Inr (Inl s))
           \<Longrightarrow> remaining (snd (term_rule s)) \<le> remaining s"
    and "exp_simple_exp_simple_exp_loop_term_rule_term_loop_factor_dom (Inr (Inr (Inl (t, s))))
           \<Longrightarrow> remaining (snd (term_loop t s)) \<le> remaining s"
    and "exp_simple_exp_simple_exp_loop_term_rule_term_loop_factor_dom (Inr (Inr (Inr s)))
           \<Longrightarrow> remaining (snd (factor s)) \<le> remaining s"
proof (induct rule: exp_simple_exp_simple_exp_loop_term_rule_term_loop_factor.pinduct)
  case (1 s)
  obtain t s1 where a: "simple_exp s = (t, s1)" by (cases "simple_exp s")
  have le1: "remaining s1 \<le> remaining s" using "1.hyps"(2) a by simp
  show ?case
  proof (cases "token s1 = LT \<or> token s1 = EQ \<or> token s1 = GT")
    case True
    obtain r s3 where b: "simple_exp (match (token s1) s1) = (r, s3)"
      by (cases "simple_exp (match (token s1) s1)")
    have "remaining s3 \<le> remaining (match (token s1) s1)"
      using "1.hyps"(3)[OF refl a[symmetric] True refl refl] b by simp
    also have "\<dots> \<le> remaining s1" by (rule remaining_match)
    finally have "remaining s3 \<le> remaining s" using le1 by simp
    then show ?thesis using "1.hyps"(1) a b True by (simp add: exp.psimps)
  next
    case False
    then show ?thesis using "1.hyps"(1) a le1 by (auto simp: exp.psimps)
  qed
next
  case (2 s)
  obtain t s1 where a: "term_rule s = (t, s1)" by (cases "term_rule s")
  have "remaining (snd (simple_exp_loop t s1)) \<le> remaining s1"
    using "2.hyps"(3)[OF refl a[symmetric]] .
  also have "remaining s1 \<le> remaining s" using "2.hyps"(2) a by simp
  finally show ?case using "2.hyps"(1) a by (simp add: simple_exp.psimps)
next
  case (3 t s)
  show ?case
  proof (cases "token s = PLUS \<or> token s = MINUS")
    case True
    let ?p = "set_attr (Op (token s)) (set_child0 t (newExpNode OpK))"
    obtain r s2 where b: "term_rule (match (token s) s) = (r, s2)"
      by (cases "term_rule (match (token s) s)")
    have "remaining (snd (simple_exp_loop (Some (set_child1 r ?p)) s2)) \<le> remaining s2"
      using "3.hyps"(3)[OF True refl refl refl b[symmetric]] .
    also have "remaining s2 \<le> remaining (match (token s) s)"
      using "3.hyps"(2)[OF True refl refl] b by simp
    also have "\<dots> \<le> remaining s" by (rule remaining_match)
    finally show ?thesis using "3.hyps"(1) b True by (simp add: simple_exp_loop.psimps)
  next
    case False
    then show ?thesis using "3.hyps"(1) by (auto simp: simple_exp_loop.psimps)
  qed
next
  case (4 s)
  obtain t s1 where a: "factor s = (t, s1)" by (cases "factor s")
  have "remaining (snd (term_loop t s1)) \<le> remaining s1"
    using "4.hyps"(3)[OF refl a[symmetric]] .
  also have "remaining s1 \<le> remaining s" using "4.hyps"(2) a by simp
  finally show ?case using "4.hyps"(1) a by (simp add: term_rule.psimps)
next
  case (5 t s)
  show ?case
  proof (cases "token s = TIMES \<or> token s = OVER \<or> token s = MOD")
    case True
    let ?p = "set_attr (Op (token s)) (set_child0 t (newExpNode OpK))"
    obtain r s2 where b: "factor (match (token s) s) = (r, s2)"
      by (cases "factor (match (token s) s)")
    have "remaining (snd (term_loop (Some (set_child1 r ?p)) s2)) \<le> remaining s2"
      using "5.hyps"(3)[OF True refl refl refl b[symmetric]] .
    also have "remaining s2 \<le> remaining (match (token s) s)"
      using "5.hyps"(2)[OF True refl refl] b by simp
    also have "\<dots> \<le> remaining s" by (rule remaining_match)
    finally show ?thesis using "5.hyps"(1) b True by (simp add: term_loop.psimps)
  next
    case False
    then show ?thesis using "5.hyps"(1) by (auto simp: term_loop.psimps)
  qed
next
  case (6 s)
  consider (num) "token s = NUM" | (id) "token s \<noteq> NUM" "token s = ID"
    | (paren) "token s \<noteq> NUM" "token s \<noteq> ID" "token s = LPAREN"
    | (other) "token s \<noteq> NUM" "token s \<noteq> ID" "token s \<noteq> LPAREN"
    by blast
  then show ?case
  proof cases
    case num
    then show ?thesis using "6.hyps"(1) by (simp add: factor.psimps remaining_match)
  next
    case id
    then show ?thesis using "6.hyps"(1) by (simp add: factor.psimps remaining_match)
  next
    case paren
    obtain t s2 where b: "exp (match LPAREN s) = (t, s2)" by (cases "exp (match LPAREN s)")
    have "remaining (match RPAREN s2) \<le> remaining s2" by (rule remaining_match)
    also have "remaining s2 \<le> remaining (match LPAREN s)"
      using "6.hyps"(2)[OF paren refl] b by simp
    also have "\<dots> \<le> remaining s" by (rule remaining_match)
    finally show ?thesis using "6.hyps"(1) paren b by (simp add: factor.psimps)
  next
    case other
    have "remaining (getToken (printToken (syntaxError ''unexpected token -> '' s)))
            \<le> remaining s"
      using remaining_getToken[of "printToken (syntaxError ''unexpected token -> '' s)"]
      by simp
    then show ?thesis using "6.hyps"(1) other by (simp add: factor.psimps)
  qed
qed

text \<open>
  The measure: six times the tokens still to be consumed, plus the rank of the rule
  among those called on the same state.
\<close>

lemma expr_total: "All exp_simple_exp_simple_exp_loop_term_rule_term_loop_factor_dom"
proof (relation "measure (\<lambda>x. case x of
          Inl (Inl s) \<Rightarrow> 6 * remaining s + 5
        | Inl (Inr (Inl s)) \<Rightarrow> 6 * remaining s + 4
        | Inl (Inr (Inr (t, s))) \<Rightarrow> 6 * remaining s + 1
        | Inr (Inl s) \<Rightarrow> 6 * remaining s + 3
        | Inr (Inr (Inl (t, s))) \<Rightarrow> 6 * remaining s
        | Inr (Inr (Inr s)) \<Rightarrow> 6 * remaining s + 2)", goal_cases)
  case 1
  show ?case by simp
next
  case (2 s)
  show ?case by simp
next
  case (3 s x t s1 p s2)
  have "remaining s2 \<le> remaining s1" using 3 by (simp add: remaining_match)
  moreover have "remaining s1 \<le> remaining s"
    using expr_remaining_partial(2)[OF 3(6)] 3(1,2) by (metis snd_conv)
  ultimately show ?case by simp
next
  case (4 s)
  show ?case by simp
next
  case (5 s x t s1)
  have "remaining s1 \<le> remaining s"
    using expr_remaining_partial(4)[OF 5(3)] 5(1,2) by (metis snd_conv)
  then show ?case by simp
next
  case (6 t s p s1)
  have "token s \<noteq> ENDFILE" using 6(1) by auto
  then have "remaining s1 < remaining s" using 6(3) by (simp add: remaining_match_less)
  then show ?case by simp
next
  case (7 t s p s1 x r s2)
  have "token s \<noteq> ENDFILE" using 7(1) by auto
  then have "remaining s1 < remaining s" using 7(3) by (simp add: remaining_match_less)
  moreover have "remaining s2 \<le> remaining s1"
    using expr_remaining_partial(4)[OF 7(6)] 7(4,5) by (metis snd_conv)
  ultimately show ?case by simp
next
  case (8 s)
  show ?case by simp
next
  case (9 s x t s1)
  have "remaining s1 \<le> remaining s"
    using expr_remaining_partial(6)[OF 9(3)] 9(1,2) by (metis snd_conv)
  then show ?case by simp
next
  case (10 t s p s1)
  have "token s \<noteq> ENDFILE" using 10(1) by auto
  then have "remaining s1 < remaining s" using 10(3) by (simp add: remaining_match_less)
  then show ?case by simp
next
  case (11 t s p s1 x r s2)
  have "token s \<noteq> ENDFILE" using 11(1) by auto
  then have "remaining s1 < remaining s" using 11(3) by (simp add: remaining_match_less)
  moreover have "remaining s2 \<le> remaining s1"
    using expr_remaining_partial(6)[OF 11(6)] 11(4,5) by (metis snd_conv)
  ultimately show ?case by simp
next
  case (12 s s1)
  have "remaining s1 < remaining s" using 12 by (simp add: remaining_match_less)
  then show ?case by simp
qed

termination exp
  by (rule expr_total)

text \<open>The equations are unfolded by hand, one call at a time.\<close>

declare exp.simps [simp del] simple_exp.simps [simp del] simple_exp_loop.simps [simp del]
  term_rule.simps [simp del] term_loop.simps [simp del] factor.simps [simp del]

lemma remaining_exp: "remaining (snd (exp s)) \<le> remaining s"
  using expr_remaining_partial(1) expr_total by blast

lemma remaining_simple_exp: "remaining (snd (simple_exp s)) \<le> remaining s"
  using expr_remaining_partial(2) expr_total by blast

section \<open>The statement rules\<close>

definition assign_stmt :: "pstate \<Rightarrow> TreeNode option \<times> pstate" where
  "assign_stmt s =
     (let t = newStmtNode AssignK;
          t = (if token s = ID then set_attr (Name (copyString (tokenString s))) t else t);
          s1 = match ID s;
          s2 = match ASSIGN s1;
          (c0, s3) = exp s2
      in (Some (set_child0 c0 t), s3))"

definition read_stmt :: "pstate \<Rightarrow> TreeNode option \<times> pstate" where
  "read_stmt s =
     (let t = newStmtNode ReadK;
          s1 = match READ s;
          t = (if token s1 = ID then set_attr (Name (copyString (tokenString s1))) t else t);
          s2 = match ID s1
      in (Some t, s2))"

definition write_stmt :: "pstate \<Rightarrow> TreeNode option \<times> pstate" where
  "write_stmt s =
     (let t = newStmtNode WriteK;
          s1 = match WRITE s;
          (c0, s2) = exp s1
      in (Some (set_child0 c0 t), s2))"

text \<open>
  The body of the loop of \<^verbatim>\<open>stmt_sequence\<close> after \<^verbatim>\<open>q = statement()\<close>: the new
  head \<^verbatim>\<open>t\<close> of the chain (the pointer \<^verbatim>\<open>p\<close> is its last node).
\<close>

definition link_stmt :: "TreeNode option \<Rightarrow> TreeNode option \<Rightarrow> TreeNode option" where
  "link_stmt t q =
     (case q of
        None \<Rightarrow> t
      | Some qn \<Rightarrow> (case t of None \<Rightarrow> Some qn | Some tn \<Rightarrow> Some (link_last tn qn)))"

function stmt_sequence :: "pstate \<Rightarrow> TreeNode option \<times> pstate"
  and stmt_sequence_loop :: "TreeNode option \<Rightarrow> pstate \<Rightarrow> TreeNode option \<times> pstate"
  and statement :: "pstate \<Rightarrow> TreeNode option \<times> pstate"
  and if_stmt :: "pstate \<Rightarrow> TreeNode option \<times> pstate"
  and repeat_stmt :: "pstate \<Rightarrow> TreeNode option \<times> pstate"
  and while_stmt :: "pstate \<Rightarrow> TreeNode option \<times> pstate"
  and dowhile_stmt :: "pstate \<Rightarrow> TreeNode option \<times> pstate"
  and for_stmt :: "pstate \<Rightarrow> TreeNode option \<times> pstate"
where
  "stmt_sequence s = (let (t, s1) = statement s in stmt_sequence_loop t s1)"
| "stmt_sequence_loop t s =
     (if token s \<noteq> ENDFILE \<and> token s \<noteq> END \<and> token s \<noteq> ELSE \<and> token s \<noteq> UNTIL
         \<and> token s \<noteq> WHILE \<and> token s \<noteq> ENDWHILE \<and> token s \<noteq> ENDDO then
        let s1 = match SEMI s;
            (q, s2) = statement s1
        in stmt_sequence_loop (link_stmt t q) s2
      else (t, s))"
| "statement s =
     (if token s = IF then if_stmt s
      else if token s = REPEAT then repeat_stmt s
      else if token s = ID then assign_stmt s
      else if token s = READ then read_stmt s
      else if token s = WRITE then write_stmt s
      else if token s = WHILE then while_stmt s
      else if token s = DO then dowhile_stmt s
      else if token s = FOR then for_stmt s
      else (None, getToken (printToken (syntaxError ''unexpected token -> '' s))))"
| "if_stmt s =
     (let t = newStmtNode IfK;
          s1 = match IF s;
          s2 = match LPAREN s1;
          (c0, s3) = exp s2;
          t = set_child0 c0 t;
          s4 = match RPAREN s3;
          s5 = match THEN_TOK s4;
          (c1, s6) = stmt_sequence s5;
          t = set_child1 c1 t
      in if token s6 = ELSE then
           let s7 = match ELSE s6;
               (c2, s8) = stmt_sequence s7;
               t = set_child2 c2 t
           in (Some t, match END s8)
         else (Some t, match END s6))"
| "repeat_stmt s =
     (let t = newStmtNode RepeatK;
          s1 = match REPEAT s;
          (c0, s2) = stmt_sequence s1;
          t = set_child0 c0 t;
          s3 = match UNTIL s2;
          (c1, s4) = exp s3
      in (Some (set_child1 c1 t), s4))"
| "while_stmt s =
     (let node = newStmtNode WhileK;
          s1 = match WHILE s;
          (c0, s2) = exp s1;
          node = set_child0 c0 node;
          s3 = match DO s2;
          (c1, s4) = stmt_sequence s3;
          node = set_child1 c1 node
      in (Some node, match ENDWHILE s4))"
| "dowhile_stmt s =
     (let node = newStmtNode DoWhileK;
          s1 = match DO s;
          (c0, s2) = stmt_sequence s1;
          node = set_child0 c0 node;
          s3 = match WHILE s2;
          s4 = match LPAREN s3;
          (c1, s5) = exp s4;
          node = set_child1 c1 node
      in (Some node, match RPAREN s5))"
| "for_stmt s =
     (let node = newStmtNode ForK;
          s1 = match FOR s;
          node = (if token s1 = ID
                  then set_attr (Name (copyString (tokenString s1))) node else node);
          s2 = match ID s1;
          s3 = match ASSIGN s2;
          (c0, s4) = simple_exp s3;
          node = set_child0 c0 node;
          s5 = (if token s4 = TO then match TO s4 else s4);
          s6 = (if token s5 = DOWNTO then match DOWNTO s5 else s5);
          (c1, s7) = simple_exp s6;
          node = set_child1 c1 node;
          s8 = match DO s7;
          (c2, s9) = stmt_sequence s8;
          node = set_child2 c2 node
      in (Some node, match ENDDO s9))"
  by pat_completeness auto

text \<open>No statement rule moves the cursor back; a statement consumes a token.\<close>

lemma rem_match_le: "remaining s \<le> n \<Longrightarrow> remaining (match e s) \<le> n"
  using remaining_match[of e s] by simp

lemma rem_exp_le: "remaining s \<le> n \<Longrightarrow> remaining (snd (exp s)) \<le> n"
  using remaining_exp[of s] by simp

lemma rem_simple_exp_le: "remaining s \<le> n \<Longrightarrow> remaining (snd (simple_exp s)) \<le> n"
  using remaining_simple_exp[of s] by simp

lemma rem_opt_match_le:
  "remaining s \<le> n \<Longrightarrow> remaining (if token s = e then match e s else s) \<le> n"
  using remaining_match[of e s] by simp

lemmas rem_le_intros = rem_match_le rem_exp_le rem_simple_exp_le rem_opt_match_le

lemma remaining_assign_stmt:
  "remaining (snd (assign_stmt s)) \<le> remaining s"
  "token s = ID \<Longrightarrow> remaining (snd (assign_stmt s)) < remaining s"
proof -
  have eq: "snd (assign_stmt s) = snd (exp (match ASSIGN (match ID s)))"
    by (simp add: assign_stmt_def Let_def split: prod.splits)
  have "remaining (snd (exp (match ASSIGN (match ID s)))) \<le> remaining (match ID s)"
    by (intro rem_le_intros order_refl)
  then show "remaining (snd (assign_stmt s)) \<le> remaining s"
    and "token s = ID \<Longrightarrow> remaining (snd (assign_stmt s)) < remaining s"
    using remaining_match[of ID s] remaining_match_less[of s ID] by (simp_all add: eq)
qed

lemma remaining_read_stmt:
  "remaining (snd (read_stmt s)) \<le> remaining s"
  "token s = READ \<Longrightarrow> remaining (snd (read_stmt s)) < remaining s"
proof -
  have eq: "snd (read_stmt s) = match ID (match READ s)"
    by (simp add: read_stmt_def Let_def)
  have "remaining (match ID (match READ s)) \<le> remaining (match READ s)"
    by (intro rem_le_intros order_refl)
  then show "remaining (snd (read_stmt s)) \<le> remaining s"
    and "token s = READ \<Longrightarrow> remaining (snd (read_stmt s)) < remaining s"
    using remaining_match[of READ s] remaining_match_less[of s READ] by (simp_all add: eq)
qed

lemma remaining_write_stmt:
  "remaining (snd (write_stmt s)) \<le> remaining s"
  "token s = WRITE \<Longrightarrow> remaining (snd (write_stmt s)) < remaining s"
proof -
  have eq: "snd (write_stmt s) = snd (exp (match WRITE s))"
    by (simp add: write_stmt_def Let_def split: prod.splits)
  have "remaining (snd (exp (match WRITE s))) \<le> remaining (match WRITE s)"
    by (intro rem_le_intros order_refl)
  then show "remaining (snd (write_stmt s)) \<le> remaining s"
    and "token s = WRITE \<Longrightarrow> remaining (snd (write_stmt s)) < remaining s"
    using remaining_match[of WRITE s] remaining_match_less[of s WRITE] by (simp_all add: eq)
qed

text \<open>The states at which the compound statements call \<open>stmt_sequence\<close>.\<close>

lemma if_prefix: "remaining (match THEN_TOK (match RPAREN (snd (exp (match LPAREN s))))) \<le> remaining s"
  by (intro rem_le_intros order_refl)

lemma for_prefix:
  "remaining (match DO (snd (simple_exp
      (let s4 = snd (simple_exp (match ASSIGN (match ID s)));
           s5 = (if token s4 = TO then match TO s4 else s4)
       in (if token s5 = DOWNTO then match DOWNTO s5 else s5))))) \<le> remaining s"
  unfolding Let_def by (intro rem_le_intros order_refl)


lemma stmt_remaining_partial:
  shows "stmt_sequence_stmt_sequence_loop_statement_if_stmt_repeat_stmt_while_stmt_dowhile_stmt_for_stmt_dom (Inl (Inl (Inl s)))
           \<Longrightarrow> remaining (snd (stmt_sequence s)) \<le> remaining s"
    and "stmt_sequence_stmt_sequence_loop_statement_if_stmt_repeat_stmt_while_stmt_dowhile_stmt_for_stmt_dom (Inl (Inl (Inr (t, s))))
           \<Longrightarrow> remaining (snd (stmt_sequence_loop t s)) \<le> remaining s"
    and "stmt_sequence_stmt_sequence_loop_statement_if_stmt_repeat_stmt_while_stmt_dowhile_stmt_for_stmt_dom (Inl (Inr (Inl s)))
           \<Longrightarrow> remaining (snd (statement s)) \<le> remaining s
               \<and> (token s \<noteq> ENDFILE \<longrightarrow> remaining (snd (statement s)) < remaining s)"
    and "stmt_sequence_stmt_sequence_loop_statement_if_stmt_repeat_stmt_while_stmt_dowhile_stmt_for_stmt_dom (Inl (Inr (Inr s)))
           \<Longrightarrow> remaining (snd (if_stmt s)) \<le> remaining s
               \<and> (token s = IF \<longrightarrow> remaining (snd (if_stmt s)) < remaining s)"
    and "stmt_sequence_stmt_sequence_loop_statement_if_stmt_repeat_stmt_while_stmt_dowhile_stmt_for_stmt_dom (Inr (Inl (Inl s)))
           \<Longrightarrow> remaining (snd (repeat_stmt s)) \<le> remaining s
               \<and> (token s = REPEAT \<longrightarrow> remaining (snd (repeat_stmt s)) < remaining s)"
    and "stmt_sequence_stmt_sequence_loop_statement_if_stmt_repeat_stmt_while_stmt_dowhile_stmt_for_stmt_dom (Inr (Inl (Inr s)))
           \<Longrightarrow> remaining (snd (while_stmt s)) \<le> remaining s
               \<and> (token s = WHILE \<longrightarrow> remaining (snd (while_stmt s)) < remaining s)"
    and "stmt_sequence_stmt_sequence_loop_statement_if_stmt_repeat_stmt_while_stmt_dowhile_stmt_for_stmt_dom (Inr (Inr (Inl s)))
           \<Longrightarrow> remaining (snd (dowhile_stmt s)) \<le> remaining s
               \<and> (token s = DO \<longrightarrow> remaining (snd (dowhile_stmt s)) < remaining s)"
    and "stmt_sequence_stmt_sequence_loop_statement_if_stmt_repeat_stmt_while_stmt_dowhile_stmt_for_stmt_dom (Inr (Inr (Inr s)))
           \<Longrightarrow> remaining (snd (for_stmt s)) \<le> remaining s
               \<and> (token s = FOR \<longrightarrow> remaining (snd (for_stmt s)) < remaining s)"
proof (induct rule: stmt_sequence_stmt_sequence_loop_statement_if_stmt_repeat_stmt_while_stmt_dowhile_stmt_for_stmt.pinduct)
  case (1 s)
  obtain t s1 where a: "statement s = (t, s1)" by (cases "statement s")
  have "remaining (snd (stmt_sequence_loop t s1)) \<le> remaining s1"
    using "1.hyps"(3)[OF refl a[symmetric]] .
  also have "remaining s1 \<le> remaining s" using "1.hyps"(2) a by simp
  finally show ?case using "1.hyps"(1) a by (simp add: stmt_sequence.psimps)
next
  case (2 t s)
  show ?case
  proof (cases "token s \<noteq> ENDFILE \<and> token s \<noteq> END \<and> token s \<noteq> ELSE \<and> token s \<noteq> UNTIL
         \<and> token s \<noteq> WHILE \<and> token s \<noteq> ENDWHILE \<and> token s \<noteq> ENDDO")
    case True
    obtain q s2 where b: "statement (match SEMI s) = (q, s2)"
      by (cases "statement (match SEMI s)")
    have "remaining (snd (stmt_sequence_loop (link_stmt t q) s2)) \<le> remaining s2"
      using "2.hyps"(3)[OF True refl refl b[symmetric]] .
    also have "remaining s2 \<le> remaining (match SEMI s)"
      using "2.hyps"(2)[OF True refl] b by simp
    also have "\<dots> \<le> remaining s" by (rule remaining_match)
    finally show ?thesis using "2.hyps"(1) b True by (simp add: stmt_sequence_loop.psimps)
  next
    case False
    then show ?thesis using "2.hyps"(1) by (auto simp: stmt_sequence_loop.psimps)
  qed
next
  case (3 s)
  let ?d = "getToken (printToken (syntaxError ''unexpected token -> '' s))"
  have d: "remaining ?d \<le> remaining s" "token s \<noteq> ENDFILE \<Longrightarrow> remaining ?d < remaining s"
    using remaining_getToken[of "printToken (syntaxError ''unexpected token -> '' s)"]
      remaining_getToken_less[of "printToken (syntaxError ''unexpected token -> '' s)"]
    by simp_all
  show ?case
    using "3.hyps" d remaining_assign_stmt[of s] remaining_read_stmt[of s]
      remaining_write_stmt[of s]
    by (simp add: statement.psimps)
next
  case (4 s)
  let ?s5 = "match THEN_TOK (match RPAREN (snd (exp (match LPAREN (match IF s)))))"
  obtain c0 s3 where e: "exp (match LPAREN (match IF s)) = (c0, s3)"
    by (cases "exp (match LPAREN (match IF s))")
  obtain c1 s6 where q1: "stmt_sequence (match THEN_TOK (match RPAREN s3)) = (c1, s6)"
    by (cases "stmt_sequence (match THEN_TOK (match RPAREN s3))")
  obtain c2 s8 where q2: "stmt_sequence (match ELSE s6) = (c2, s8)"
    by (cases "stmt_sequence (match ELSE s6)")
  have s5: "remaining (match THEN_TOK (match RPAREN s3)) \<le> remaining (match IF s)"
    using if_prefix[of "match IF s"] e by simp
  have s6: "remaining s6 \<le> remaining (match THEN_TOK (match RPAREN s3))"
    using "4.hyps"(2)[OF refl refl refl refl e[symmetric] refl refl refl] q1 by simp
  have s8: "token s6 = ELSE \<Longrightarrow> remaining s8 \<le> remaining (match ELSE s6)"
    using "4.hyps"(3)[OF refl refl refl refl e[symmetric] refl refl refl refl q1[symmetric] refl _ refl]
      q2 by simp
  have res: "snd (if_stmt s) = (if token s6 = ELSE then match END s8 else match END s6)"
    using "4.hyps"(1) e q1 q2 by (simp add: if_stmt.psimps Let_def)
  have "remaining (snd (if_stmt s)) \<le> remaining (match IF s)"
    using s5 s6 s8 remaining_match[of END s8] remaining_match[of END s6]
      remaining_match[of ELSE s6]
    by (auto simp: res)
  then show ?case
    using remaining_match[of IF s] remaining_match_less[of s IF] by auto
next
  case (5 s)
  obtain c0 s2 where q1: "stmt_sequence (match REPEAT s) = (c0, s2)"
    by (cases "stmt_sequence (match REPEAT s)")
  have s2: "remaining s2 \<le> remaining (match REPEAT s)"
    using "5.hyps"(2)[OF refl refl] q1 by simp
  have res: "snd (repeat_stmt s) = snd (exp (match UNTIL s2))"
    using "5.hyps"(1) q1 by (simp add: repeat_stmt.psimps Let_def split: prod.splits)
  have "remaining (snd (exp (match UNTIL s2))) \<le> remaining s2"
    by (intro rem_le_intros order_refl)
  then have "remaining (snd (repeat_stmt s)) \<le> remaining (match REPEAT s)"
    using s2 by (simp add: res)
  then show ?case
    using remaining_match[of REPEAT s] remaining_match_less[of s REPEAT] by auto
next
  case (6 s)
  obtain c0 s2 where e: "exp (match WHILE s) = (c0, s2)" by (cases "exp (match WHILE s)")
  obtain c1 s4 where q1: "stmt_sequence (match DO s2) = (c1, s4)"
    by (cases "stmt_sequence (match DO s2)")
  have s3: "remaining (match DO s2) \<le> remaining (match WHILE s)"
    using remaining_match[of DO s2] remaining_exp[of "match WHILE s"] e by simp
  have s4: "remaining s4 \<le> remaining (match DO s2)"
    using "6.hyps"(2)[OF refl refl refl e[symmetric] refl refl] q1 by simp
  have res: "snd (while_stmt s) = match ENDWHILE s4"
    using "6.hyps"(1) e q1 by (simp add: while_stmt.psimps Let_def)
  have "remaining (snd (while_stmt s)) \<le> remaining (match WHILE s)"
    using s3 s4 remaining_match[of ENDWHILE s4] by (simp add: res)
  then show ?case
    using remaining_match[of WHILE s] remaining_match_less[of s WHILE] by auto
next
  case (7 s)
  obtain c0 s2 where q1: "stmt_sequence (match DO s) = (c0, s2)"
    by (cases "stmt_sequence (match DO s)")
  have s2: "remaining s2 \<le> remaining (match DO s)"
    using "7.hyps"(2)[OF refl refl] q1 by simp
  have res: "snd (dowhile_stmt s)
      = match RPAREN (snd (exp (match LPAREN (match WHILE s2))))"
    using "7.hyps"(1) q1 by (simp add: dowhile_stmt.psimps Let_def split: prod.splits)
  have "remaining (match RPAREN (snd (exp (match LPAREN (match WHILE s2))))) \<le> remaining s2"
    by (intro rem_le_intros order_refl)
  then have "remaining (snd (dowhile_stmt s)) \<le> remaining (match DO s)"
    using s2 by (simp add: res)
  then show ?case
    using remaining_match[of DO s] remaining_match_less[of s DO] by auto
next
  case (8 s)
  obtain c0 s4 where e1: "simple_exp (match ASSIGN (match ID (match FOR s))) = (c0, s4)"
    by (cases "simple_exp (match ASSIGN (match ID (match FOR s)))")
  let ?s5 = "if token s4 = TO then match TO s4 else s4"
  let ?s6 = "if token ?s5 = DOWNTO then match DOWNTO ?s5 else ?s5"
  obtain c1 s7 where e2: "simple_exp ?s6 = (c1, s7)" by (cases "simple_exp ?s6")
  obtain c2 s9 where q1: "stmt_sequence (match DO s7) = (c2, s9)"
    by (cases "stmt_sequence (match DO s7)")
  have s8: "remaining (match DO s7) \<le> remaining (match FOR s)"
    using for_prefix[of "match FOR s"] e1 e2 by (simp add: Let_def)
  have s9: "remaining s9 \<le> remaining (match DO s7)"
    using "8.hyps"(2)[OF refl refl refl refl refl refl e1[symmetric] refl refl refl refl
        e2[symmetric] refl refl] q1 by simp
  have res: "snd (for_stmt s) = match ENDDO s9"
    using "8.hyps"(1) e1 e2 q1 by (simp add: for_stmt.psimps Let_def)
  have "remaining (snd (for_stmt s)) \<le> remaining (match FOR s)"
    using s8 s9 remaining_match[of ENDDO s9] by (simp add: res)
  then show ?case
    using remaining_match[of FOR s] remaining_match_less[of s FOR] by auto
qed


text \<open>
  The measure: eight times the tokens still to be consumed, plus the rank of the rule
  among those called on the same state. A compound statement called on its own
  keyword consumes it before it calls \<open>stmt_sequence\<close>.
\<close>

lemma stmt_total: "All stmt_sequence_stmt_sequence_loop_statement_if_stmt_repeat_stmt_while_stmt_dowhile_stmt_for_stmt_dom"
proof (relation "measure (\<lambda>x. case x of
          Inl (Inl (Inl s)) \<Rightarrow> 8 * remaining s + 3
        | Inl (Inl (Inr (t, s))) \<Rightarrow> 8 * remaining s + 2
        | Inl (Inr (Inl s)) \<Rightarrow> 8 * remaining s + 1
        | Inl (Inr (Inr s)) \<Rightarrow> 8 * remaining s + (if token s = IF then 0 else 4)
        | Inr (Inl (Inl s)) \<Rightarrow> 8 * remaining s + (if token s = REPEAT then 0 else 4)
        | Inr (Inl (Inr s)) \<Rightarrow> 8 * remaining s + (if token s = WHILE then 0 else 4)
        | Inr (Inr (Inl s)) \<Rightarrow> 8 * remaining s + (if token s = DO then 0 else 4)
        | Inr (Inr (Inr s)) \<Rightarrow> 8 * remaining s + (if token s = FOR then 0 else 4))",
    goal_cases)
  case 1
  show ?case by simp
next
  case (2 s)
  show ?case by simp
next
  case (3 s x t s1)
  have "remaining s1 \<le> remaining s"
    using stmt_remaining_partial(3)[OF 3(3)] 3(1,2) by (metis snd_conv)
  then show ?case by simp
next
  case (4 t s s1)
  have "remaining s1 \<le> remaining s" using 4(2) by (simp add: remaining_match)
  then show ?case by simp
next
  case (5 t s s1 x q s2)
  have s2: "s2 = snd (statement s1)" using 5(3,4) by (metis snd_conv)
  have "remaining s2 < remaining s"
  proof (cases "token s = SEMI")
    case True
    then have "remaining s1 < remaining s" using 5(2) by (simp add: remaining_match_less)
    then show ?thesis using stmt_remaining_partial(3)[OF 5(5)] s2 by simp
  next
    case False
    then have "token s1 \<noteq> ENDFILE" using 5(1,2) by (simp add: token_match_neq)
    moreover have "remaining s1 \<le> remaining s" using 5(2) by (simp add: remaining_match)
    ultimately show ?thesis using stmt_remaining_partial(3)[OF 5(5)] s2 by simp
  qed
  then show ?case by simp
next
  case (6 s)
  then show ?case by simp
next
  case (7 s)
  then show ?case by simp
next
  case (8 s)
  then show ?case by simp
next
  case (9 s)
  then show ?case by simp
next
  case (10 s)
  then show ?case by simp
next
  case (11 s x s1 s2 xaa c0 s3 xac s4 s5)
  have s3: "s3 = snd (exp s2)" using 11(4,5) by (metis snd_conv)
  have "remaining s5 \<le> remaining s1"
    using if_prefix[of s1] by (simp add: 11(3,7,8) s3)
  then have "remaining s5 \<le> remaining s" "token s = IF \<Longrightarrow> remaining s5 < remaining s"
    using remaining_match[of IF s] remaining_match_less[of s IF] by (simp_all add: 11(2))
  then show ?case by auto
next
  case (12 s x s1 s2 xaa c0 s3 xac s4 s5 xe c1 s6 xg s7)
  have s3: "s3 = snd (exp s2)" using 12(4,5) by (metis snd_conv)
  have s6: "s6 = snd (stmt_sequence s5)" using 12(9,10) by (metis snd_conv)
  have "remaining s5 \<le> remaining s1"
    using if_prefix[of s1] by (simp add: 12(3,7,8) s3)
  moreover have "remaining s6 \<le> remaining s5"
    using stmt_remaining_partial(1)[OF 12(14)] s6 by simp
  moreover have "remaining s7 \<le> remaining s6" by (simp add: 12(13) remaining_match)
  ultimately have "remaining s7 \<le> remaining s1" by simp
  then have "remaining s7 \<le> remaining s" "token s = IF \<Longrightarrow> remaining s7 < remaining s"
    using remaining_match[of IF s] remaining_match_less[of s IF] by (simp_all add: 12(2))
  then show ?case by auto
next
  case (13 s x s1)
  have "remaining s1 \<le> remaining s" "token s = REPEAT \<Longrightarrow> remaining s1 < remaining s"
    using remaining_match[of REPEAT s] remaining_match_less[of s REPEAT]
    by (simp_all add: 13(2))
  then show ?case by auto
next
  case (14 s x s1 xb c0 s2 xab s3)
  have s2: "s2 = snd (exp s1)" using 14(3,4) by (metis snd_conv)
  have "remaining s3 \<le> remaining s1"
    using remaining_match[of DO s2] remaining_exp[of s1] by (simp add: 14(6) s2)
  then have "remaining s3 \<le> remaining s" "token s = WHILE \<Longrightarrow> remaining s3 < remaining s"
    using remaining_match[of WHILE s] remaining_match_less[of s WHILE]
    by (simp_all add: 14(2))
  then show ?case by auto
next
  case (15 s x s1)
  have "remaining s1 \<le> remaining s" "token s = DO \<Longrightarrow> remaining s1 < remaining s"
    using remaining_match[of DO s] remaining_match_less[of s DO]
    by (simp_all add: 15(2))
  then show ?case by auto
next
  case (16 s x s1 xb s2 s3 xe c0 s4 xg s5 s6 xj c1 s7 xl s8)
  have s4: "s4 = snd (simple_exp s3)" using 16(6,7) by (metis snd_conv)
  have s7: "s7 = snd (simple_exp s6)" using 16(11,12) by (metis snd_conv)
  have "remaining s3 \<le> remaining s1"
    unfolding 16(4,5) by (intro rem_le_intros order_refl)
  moreover have "remaining s4 \<le> remaining s3" by (simp add: s4 remaining_simple_exp)
  moreover have "remaining s5 \<le> remaining s4" by (simp add: 16(9) remaining_match)
  moreover have "remaining s6 \<le> remaining s5" by (simp add: 16(10) remaining_match)
  moreover have "remaining s7 \<le> remaining s6" by (simp add: s7 remaining_simple_exp)
  moreover have "remaining s8 \<le> remaining s7" by (simp add: 16(14) remaining_match)
  ultimately have "remaining s8 \<le> remaining s1" by simp
  then have "remaining s8 \<le> remaining s" "token s = FOR \<Longrightarrow> remaining s8 < remaining s"
    using remaining_match[of FOR s] remaining_match_less[of s FOR]
    by (simp_all add: 16(2))
  then show ?case by auto
qed

termination stmt_sequence
  by (rule stmt_total)

declare stmt_sequence.simps [simp del] stmt_sequence_loop.simps [simp del]
  statement.simps [simp del] if_stmt.simps [simp del] repeat_stmt.simps [simp del]
  while_stmt.simps [simp del] dowhile_stmt.simps [simp del] for_stmt.simps [simp del]


section \<open>The parser\<close>

text \<open>
  \<^verbatim>\<open>parse\<close> works on the globals as it finds them. \<open>fresh src\<close> is the state of a
  run on the token sequence \<open>src\<close>: nothing delivered yet, the lookahead variable
  not yet assigned (a static variable, zero, the first token kind), the flag
  \<^verbatim>\<open>Error\<close> cleared and nothing written.
\<close>

definition parse :: "pstate \<Rightarrow> TreeNode option \<times> pstate" where
  "parse s =
     (let s0 = getToken s;
          (t, s1) = stmt_sequence s0;
          s2 = (if token s1 \<noteq> ENDFILE
                then syntaxError (''Code ends before file'' @ [CHR 0x0A]) s1 else s1)
      in (t, s2))"

definition fresh :: "(TokenType \<times> string) list \<Rightarrow> pstate" where
  "fresh src = \<lparr>token = ENDFILE, tokenString = [], input = src, Error = False, listing = []\<rparr>"

section \<open>Notions used in the statements\<close>

text \<open>The cursor: the lookahead with its text, and what the scanner still holds.\<close>

definition cursor :: "pstate \<Rightarrow> TokenType \<times> string \<times> (TokenType \<times> string) list" where
  "cursor s = (token s, tokenString s, input s)"

text \<open>The node of a binary operator, as the three expression rules build it.\<close>

definition op_node :: "TokenType \<Rightarrow> TreeNode option \<Rightarrow> TreeNode option \<Rightarrow> TreeNode" where
  "op_node op l r = TreeNode l r None None (ExpK OpK) (Op op)"

text \<open>
  What the rules write for one diagnostic: the line of \<^verbatim>\<open>syntaxError\<close> and the token
  printed after it. \<open>reports s s'\<close>: from \<open>s\<close> to \<open>s'\<close> the listing has grown by
  such diagnostics and the flag has been set if there is one.
\<close>

definition diag :: "TokenType \<Rightarrow> string \<Rightarrow> listing_item list" where
  "diag k str = [SyntaxErrorLine ''unexpected token -> '', TokenText k str]"

definition reports :: "pstate \<Rightarrow> pstate \<Rightarrow> bool" where
  "reports s s' \<longleftrightarrow>
     (\<exists>ds. listing s' = listing s @ concat (map (\<lambda>(k, str). diag k str) ds)
          \<and> Error s' = (Error s \<or> ds \<noteq> []))"

text \<open>A short program, \<^verbatim>\<open>x := 1\<close>.\<close>

definition sample :: "(TokenType \<times> string) list" where
  "sample = [(ID, ''x''), (ASSIGN, '':=''), (NUM, ''1'')]"

text \<open>
  The state in which \<^verbatim>\<open>parse\<close> calls \<^verbatim>\<open>stmt_sequence\<close> on the token sequence
  \<open>src\<close>, and the leaf of a number.
\<close>

definition started :: "(TokenType \<times> string) list \<Rightarrow> pstate" where
  "started src = getToken (fresh src)"

definition num :: "string \<Rightarrow> TreeNode option" where
  "num str = Some (TreeNode None None None None (ExpK ConstK) (Val (atoi str)))"

text \<open>
  Expressions: \<^verbatim>\<open>2+3*4\<close>, \<^verbatim>\<open>2*3+4\<close>, \<^verbatim>\<open>1<2+3\<close>, \<^verbatim>\<open>1+2<3\<close>, \<^verbatim>\<open>1<2+3*4\<close>,
  \<^verbatim>\<open>1-2-3\<close>, \<^verbatim>\<open>1-2+3\<close>, \<^verbatim>\<open>8/4*2\<close>.
\<close>

definition ex_add_mul :: pstate where
  "ex_add_mul =
     started [(NUM, ''2''), (PLUS, ''+''), (NUM, ''3''), (TIMES, ''*''), (NUM, ''4'')]"
definition ex_mul_add :: pstate where
  "ex_mul_add =
     started [(NUM, ''2''), (TIMES, ''*''), (NUM, ''3''), (PLUS, ''+''), (NUM, ''4'')]"
definition ex_rel_add :: pstate where
  "ex_rel_add =
     started [(NUM, ''1''), (LT, ''<''), (NUM, ''2''), (PLUS, ''+''), (NUM, ''3'')]"
definition ex_add_rel :: pstate where
  "ex_add_rel =
     started [(NUM, ''1''), (PLUS, ''+''), (NUM, ''2''), (LT, ''<''), (NUM, ''3'')]"
definition ex_rel_add_mul :: pstate where
  "ex_rel_add_mul =
     started [(NUM, ''1''), (LT, ''<''), (NUM, ''2''), (PLUS, ''+''), (NUM, ''3''), (TIMES, ''*''), (NUM, ''4'')]"

definition ex_sub_sub :: pstate where
  "ex_sub_sub =
     started [(NUM, ''1''), (MINUS, ''-''), (NUM, ''2''), (MINUS, ''-''), (NUM, ''3'')]"
definition ex_sub_add :: pstate where
  "ex_sub_add =
     started [(NUM, ''1''), (MINUS, ''-''), (NUM, ''2''), (PLUS, ''+''), (NUM, ''3'')]"
definition ex_div_mul :: pstate where
  "ex_div_mul =
     started [(NUM, ''8''), (OVER, ''/''), (NUM, ''4''), (TIMES, ''*''), (NUM, ''2'')]"

text \<open>
  The for statement \<^verbatim>\<open>for i:=1 to 10 do write i enddo\<close>, the same without \<^verbatim>\<open>to\<close>
  and with \<^verbatim>\<open>to downto\<close>, the tree of the three, and the final state of a run that
  has consumed its input and reported nothing.
\<close>

definition ident :: "string \<Rightarrow> TreeNode option" where
  "ident str = Some (TreeNode None None None None (ExpK IdK) (Name str))"

definition for_to :: "(TokenType \<times> string) list" where
  "for_to =
     [(FOR, ''for''), (ID, ''i''), (ASSIGN, '':=''), (NUM, ''1''), (TO, ''to''), (NUM, ''10''),
      (DO, ''do''), (WRITE, ''write''), (ID, ''i''), (ENDDO, ''enddo'')]"

definition for_no_direction :: "(TokenType \<times> string) list" where
  "for_no_direction =
     [(FOR, ''for''), (ID, ''i''), (ASSIGN, '':=''), (NUM, ''1''), (NUM, ''10''),
      (DO, ''do''), (WRITE, ''write''), (ID, ''i''), (ENDDO, ''enddo'')]"

definition for_both_directions :: "(TokenType \<times> string) list" where
  "for_both_directions =
     [(FOR, ''for''), (ID, ''i''), (ASSIGN, '':=''), (NUM, ''1''), (TO, ''to''),
      (DOWNTO, ''downto''), (NUM, ''10''),
      (DO, ''do''), (WRITE, ''write''), (ID, ''i''), (ENDDO, ''enddo'')]"

definition for_tree :: TreeNode where
  "for_tree =
     TreeNode (num ''1'') (num ''10'')
       (Some (TreeNode (ident ''i'') None None None (StmtK WriteK) NoAttr))
       None (StmtK ForK) (Name ''i'')"

definition at_end :: pstate where
  "at_end = \<lparr>token = ENDFILE, tokenString = [], input = [], Error = False, listing = []\<rparr>"

text \<open>
  The statement sequence \<^verbatim>\<open>while x do write x endwhile\<close>, the statement
  \<^verbatim>\<open>if (x) then end\<close>, and the state at the keyword \<^verbatim>\<open>end\<close> with nothing after it.
\<close>

definition while_first :: pstate where
  "while_first =
     started [(WHILE, ''while''), (ID, ''x''), (DO, ''do''), (WRITE, ''write''), (ID, ''x''),
              (ENDWHILE, ''endwhile'')]"

definition empty_then :: pstate where
  "empty_then =
     started [(IF, ''if''), (LPAREN, ''(''), (ID, ''x''), (RPAREN, '')''), (THEN_TOK, ''then''),
              (END, ''end'')]"

definition at_end_keyword :: pstate where
  "at_end_keyword =
     \<lparr>token = END, tokenString = ''end'', input = [], Error = False, listing = []\<rparr>"

text \<open>
  The node of a statement, the terminators of a statement sequence, the name
  \<^verbatim>\<open>assign_stmt\<close>, \<^verbatim>\<open>read_stmt\<close> and \<^verbatim>\<open>for_stmt\<close> store (if the lookahead is an
  identifier), and the state of \<^verbatim>\<open>for_stmt\<close> after its two tests for a directional
  keyword.
\<close>

definition stmt_node ::
  "StmtKind \<Rightarrow> Attr \<Rightarrow> TreeNode option \<Rightarrow> TreeNode option \<Rightarrow> TreeNode option \<Rightarrow> TreeNode" where
  "stmt_node k a c0 c1 c2 = TreeNode c0 c1 c2 None (StmtK k) a"

definition terminator :: "TokenType \<Rightarrow> bool" where
  "terminator k \<longleftrightarrow> k \<in> {ENDFILE, END, ELSE, UNTIL, WHILE, ENDWHILE, ENDDO}"

definition name_at :: "pstate \<Rightarrow> Attr" where
  "name_at s = (if token s = ID then Name (tokenString s) else NoAttr)"

definition after_direction :: "pstate \<Rightarrow> pstate" where
  "after_direction s =
     (let s5 = (if token s = TO then match TO s else s)
      in if token s5 = DOWNTO then match DOWNTO s5 else s5)"

text \<open>
  What a rule reads of the state: the cursor and the flag. Two runs of a rule agree
  (\<open>same_run\<close>) if they return the same tree and end with the same cursor and flag.
  \<open>stale src\<close> is a state with the input \<open>src\<close> in which the lookahead variable and
  the listing hold what an earlier run has left.
\<close>

definition core :: "pstate \<Rightarrow> TokenType \<times> string \<times> (TokenType \<times> string) list \<times> bool" where
  "core s = (token s, tokenString s, input s, Error s)"

definition same_run ::
  "(pstate \<Rightarrow> TreeNode option \<times> pstate) \<Rightarrow> pstate \<Rightarrow> pstate \<Rightarrow> bool" where
  "same_run f a b \<longleftrightarrow> fst (f a) = fst (f b) \<and> core (snd (f a)) = core (snd (f b))"

definition stale :: "(TokenType \<times> string) list \<Rightarrow> pstate" where
  "stale src =
     \<lparr>token = SEMI, tokenString = '';'', input = src, Error = False,
      listing = diag SEMI '';''\<rparr>"

text \<open>States at \<^verbatim>\<open>; 1 + *\<close>, at \<^verbatim>\<open>+ *\<close> and at \<^verbatim>\<open>*\<close>.\<close>

definition at_semi :: pstate where
  "at_semi = started [(SEMI, '';''), (NUM, ''1''), (PLUS, ''+''), (TIMES, ''*'')]"

definition at_plus :: pstate where
  "at_plus = started [(PLUS, ''+''), (TIMES, ''*'')]"

definition at_times :: pstate where
  "at_times = started [(TIMES, ''*'')]"

text \<open>
  What a tree says about the input it was built from. \<open>yield\<close> lists the tokens of a
  node in the order of the input: a keyword or symbol as its kind, an identifier with
  the name the tree stores, a number with the value it stores; then, after a
  semicolon, those of the siblings. \<open>erase\<close> is the same view of the input: the
  tokens the tree does not keep (parentheses and the directional keywords) are left out,
  an identifier is taken with its name and a number with its value.
\<close>

type_synonym item = "TokenType \<times> Attr"

definition kw :: "TokenType \<Rightarrow> item" where
  "kw k = (k, NoAttr)"

definition op_of :: "Attr \<Rightarrow> TokenType" where
  "op_of a = (case a of Op k \<Rightarrow> k | _ \<Rightarrow> ENDFILE)"

fun yield :: "TreeNode \<Rightarrow> item list"
  and yield_opt :: "TreeNode option \<Rightarrow> item list"
where
  "yield (TreeNode c0 c1 c2 sib k a) =
     (case k of
        ExpK OpK \<Rightarrow> yield_opt c0 @ [kw (op_of a)] @ yield_opt c1
      | ExpK ConstK \<Rightarrow> [(NUM, a)]
      | ExpK IdK \<Rightarrow> [(ID, a)]
      | StmtK IfK \<Rightarrow>
          [kw IF] @ yield_opt c0 @ [kw THEN_TOK] @ yield_opt c1
          @ (case c2 of None \<Rightarrow> [] | Some n \<Rightarrow> kw ELSE # yield n) @ [kw END]
      | StmtK RepeatK \<Rightarrow> [kw REPEAT] @ yield_opt c0 @ [kw UNTIL] @ yield_opt c1
      | StmtK AssignK \<Rightarrow> [(ID, a), kw ASSIGN] @ yield_opt c0
      | StmtK ReadK \<Rightarrow> [kw READ, (ID, a)]
      | StmtK WriteK \<Rightarrow> [kw WRITE] @ yield_opt c0
      | StmtK WhileK \<Rightarrow>
          [kw WHILE] @ yield_opt c0 @ [kw DO] @ yield_opt c1 @ [kw ENDWHILE]
      | StmtK DoWhileK \<Rightarrow> [kw DO] @ yield_opt c0 @ [kw WHILE] @ yield_opt c1
      | StmtK ForK \<Rightarrow>
          [kw FOR, (ID, a), kw ASSIGN] @ yield_opt c0 @ yield_opt c1 @ [kw DO]
          @ yield_opt c2 @ [kw ENDDO])
     @ (case sib of None \<Rightarrow> [] | Some n \<Rightarrow> kw SEMI # yield n)"
| "yield_opt None = []"
| "yield_opt (Some n) = yield n"

text \<open>
  A node is complete if the child slots its variant requires hold a node (the else
  part of an if statement is not required), its attribute is of the kind its variant
  stores, and its children and siblings are complete.
\<close>

definition has_op :: "Attr \<Rightarrow> bool" where
  "has_op a = (case a of Op k \<Rightarrow> True | _ \<Rightarrow> False)"

definition has_val :: "Attr \<Rightarrow> bool" where
  "has_val a = (case a of Val v \<Rightarrow> True | _ \<Rightarrow> False)"

definition has_name :: "Attr \<Rightarrow> bool" where
  "has_name a = (case a of Name x \<Rightarrow> True | _ \<Rightarrow> False)"

fun complete :: "TreeNode \<Rightarrow> bool"
  and complete_opt :: "TreeNode option \<Rightarrow> bool"
where
  "complete (TreeNode c0 c1 c2 sib k a) =
     ((case k of
         ExpK OpK \<Rightarrow> c0 \<noteq> None \<and> c1 \<noteq> None \<and> has_op a
       | ExpK ConstK \<Rightarrow> has_val a
       | ExpK IdK \<Rightarrow> has_name a
       | StmtK IfK \<Rightarrow> c0 \<noteq> None \<and> c1 \<noteq> None
       | StmtK RepeatK \<Rightarrow> c0 \<noteq> None \<and> c1 \<noteq> None
       | StmtK AssignK \<Rightarrow> c0 \<noteq> None \<and> has_name a
       | StmtK ReadK \<Rightarrow> has_name a
       | StmtK WriteK \<Rightarrow> c0 \<noteq> None
       | StmtK WhileK \<Rightarrow> c0 \<noteq> None \<and> c1 \<noteq> None
       | StmtK DoWhileK \<Rightarrow> c0 \<noteq> None \<and> c1 \<noteq> None
       | StmtK ForK \<Rightarrow> c0 \<noteq> None \<and> c1 \<noteq> None \<and> c2 \<noteq> None \<and> has_name a)
      \<and> complete_opt c0 \<and> complete_opt c1 \<and> complete_opt c2 \<and> complete_opt sib)"
| "complete_opt None = True"
| "complete_opt (Some n) = complete n"

definition item_of :: "TokenType \<times> string \<Rightarrow> item" where
  "item_of t =
     (case t of (k, str) \<Rightarrow>
        (k, if k = ID then Name str else if k = NUM then Val (atoi str) else NoAttr))"

definition erase :: "(TokenType \<times> string) list \<Rightarrow> item list" where
  "erase ts = map item_of (filter (\<lambda>t. fst t \<notin> {LPAREN, RPAREN, TO, DOWNTO}) ts)"

definition stream :: "pstate \<Rightarrow> (TokenType \<times> string) list" where
  "stream s = takeWhile (\<lambda>t. fst t \<noteq> ENDFILE) ((token s, tokenString s) # input s)"

text \<open>
  \<open>stream s\<close> is the input from the lookahead on, up to end of input.
  \<open>consumes s s' ys\<close>: no error in \<open>s\<close> and \<open>s'\<close>, and the tokens consumed from
  \<open>s\<close> to \<open>s'\<close> are seen as \<open>ys\<close>. A rule is \<open>good\<close> at \<open>s\<close> if, when it ends
  without error, it returns a complete node whose yield is what it has consumed; for
  a loop, what the loop adds to the tree it was given.
\<close>

definition consumes :: "pstate \<Rightarrow> pstate \<Rightarrow> item list \<Rightarrow> bool" where
  "consumes s s' ys \<longleftrightarrow>
     \<not> Error s \<and> \<not> Error s' \<and> (\<exists>pre. stream s = pre @ stream s' \<and> erase pre = ys)"

definition good :: "(pstate \<Rightarrow> TreeNode option \<times> pstate) \<Rightarrow> pstate \<Rightarrow> bool" where
  "good f s \<longleftrightarrow>
     (\<not> Error (snd (f s)) \<longrightarrow>
        (\<exists>n. fst (f s) = Some n \<and> complete n \<and> sibling n = None
             \<and> consumes s (snd (f s)) (yield n)))"

definition good_loop ::
  "(TreeNode option \<Rightarrow> pstate \<Rightarrow> TreeNode option \<times> pstate) \<Rightarrow> TreeNode option \<Rightarrow> pstate
     \<Rightarrow> bool" where
  "good_loop f t s \<longleftrightarrow>
     (\<forall>n0. t = Some n0 \<and> complete n0 \<and> sibling n0 = None \<and> \<not> Error (snd (f t s)) \<longrightarrow>
        (\<exists>n ys. fst (f t s) = Some n \<and> complete n \<and> sibling n = None
             \<and> consumes s (snd (f t s)) ys \<and> yield n = yield n0 @ ys))"

definition good_seq :: "pstate \<Rightarrow> bool" where
  "good_seq s \<longleftrightarrow>
     (\<not> Error (snd (stmt_sequence s)) \<longrightarrow>
        (\<exists>n. fst (stmt_sequence s) = Some n \<and> complete n
             \<and> consumes s (snd (stmt_sequence s)) (yield n)))"

definition good_seq_loop :: "TreeNode option \<Rightarrow> pstate \<Rightarrow> bool" where
  "good_seq_loop t s \<longleftrightarrow>
     (\<forall>n0. t = Some n0 \<and> complete n0 \<and> \<not> Error (snd (stmt_sequence_loop t s)) \<longrightarrow>
        (\<exists>n ys. fst (stmt_sequence_loop t s) = Some n \<and> complete n
             \<and> consumes s (snd (stmt_sequence_loop t s)) ys \<and> yield n = yield n0 @ ys))"

text \<open>
  A program: \<^verbatim>\<open>read x; if (0<x) then write x*(x+01) else x := 0 end\<close>.
\<close>

definition program :: "(TokenType \<times> string) list" where
  "program =
     [(READ, ''read''), (ID, ''x''), (SEMI, '';''),
      (IF, ''if''), (LPAREN, ''(''), (NUM, ''0''), (LT, ''<''), (ID, ''x''), (RPAREN, '')''),
      (THEN_TOK, ''then''),
      (WRITE, ''write''), (ID, ''x''), (TIMES, ''*''), (LPAREN, ''(''), (ID, ''x''),
      (PLUS, ''+''), (NUM, ''01''), (RPAREN, '')''),
      (ELSE, ''else''), (ID, ''x''), (ASSIGN, '':=''), (NUM, ''0''),
      (END, ''end'')]"

text \<open>
  Relational operators in a row. \<open>arith_run ks d\<close>: the kinds \<open>ks\<close>, read at depth
  \<open>d\<close> of parentheses, are operands and arithmetic operators at depth 0 and anything
  inside parentheses, and the parentheses close. \<open>chained d w\<close>: such a run and then a
  relational operator start \<open>w\<close>. \<open>before_chain w\<close>: somewhere in \<open>w\<close> a
  relational operator stands before such a run and a second relational operator.
  \<open>in_chain\<close> and \<open>ahead\<close> say so of the tokens a state has yet to read. The relations
  \<open>carries\<close>, \<open>enters\<close> and \<open>leads\<close> say what a rule hands on from the state it
  starts in to the state it returns, unless it sets the flag. \<open>chain\<close> is the program
  \<^verbatim>\<open>write 1<2<3\<close>.
\<close>

definition relop :: "TokenType \<Rightarrow> bool" where
  "relop k \<longleftrightarrow> k = LT \<or> k = EQ \<or> k = GT"

definition arith :: "TokenType \<Rightarrow> bool" where
  "arith k \<longleftrightarrow> k \<in> {NUM, ID, PLUS, MINUS, TIMES, OVER, MOD}"

fun arith_run :: "TokenType list \<Rightarrow> nat \<Rightarrow> bool" where
  "arith_run [] d = (d = 0)"
| "arith_run (k # ks) d =
     (if k = LPAREN then arith_run ks (Suc d)
      else if k = RPAREN then 0 < d \<and> arith_run ks (d - 1)
      else (0 < d \<or> arith k) \<and> arith_run ks d)"

definition chained :: "nat \<Rightarrow> (TokenType \<times> string) list \<Rightarrow> bool" where
  "chained d w \<longleftrightarrow>
     (\<exists>m r post. w = m @ r # post \<and> relop (fst r) \<and> arith_run (map fst m) d)"

definition before_chain :: "(TokenType \<times> string) list \<Rightarrow> bool" where
  "before_chain w \<longleftrightarrow> (\<exists>pre r v. w = pre @ r # v \<and> relop (fst r) \<and> chained 0 v)"

definition in_chain :: "nat \<Rightarrow> pstate \<Rightarrow> bool" where
  "in_chain d s = chained d (stream s)"

definition ahead :: "pstate \<Rightarrow> bool" where
  "ahead s = before_chain (stream s)"

definition carries :: "pstate \<Rightarrow> pstate \<Rightarrow> bool" where
  "carries s s' \<longleftrightarrow>
     (Error s \<longrightarrow> Error s') \<and> (ahead s \<longrightarrow> Error s' \<or> ahead s')
     \<and> (\<forall>d. in_chain d s \<longrightarrow> Error s' \<or> in_chain d s')"

definition enters :: "pstate \<Rightarrow> pstate \<Rightarrow> bool" where
  "enters s s' \<longleftrightarrow>
     (Error s \<longrightarrow> Error s') \<and> (ahead s \<longrightarrow> Error s' \<or> ahead s' \<or> in_chain 0 s')
     \<and> (\<forall>d. 0 < d \<longrightarrow> in_chain d s \<longrightarrow> Error s' \<or> in_chain d s')"

definition pending :: "pstate \<Rightarrow> bool" where
  "pending s \<longleftrightarrow> ahead s \<or> in_chain 0 s"

definition closing :: "TokenType \<Rightarrow> bool" where
  "closing e \<longleftrightarrow> \<not> relop e \<and> \<not> arith e \<and> e \<noteq> LPAREN"

definition leads :: "(pstate \<Rightarrow> bool) \<Rightarrow> (pstate \<Rightarrow> bool) \<Rightarrow> pstate \<Rightarrow> pstate \<Rightarrow> bool" where
  "leads P Q s s' \<longleftrightarrow> (Error s \<longrightarrow> Error s') \<and> (P s \<longrightarrow> Error s' \<or> Q s')"

definition chain :: "(TokenType \<times> string) list" where
  "chain = [(WRITE, ''write''), (NUM, ''1''), (LT, ''<''), (NUM, ''2''), (LT, ''<''),
            (NUM, ''3'')]"


text \<open>
  The reading of an expression by the strength of its operators. \<open>level\<close>: a relational
  operator binds at strength 0, an additive one at 1, a multiplicative one at 2; every
  other token has 3. \<open>outer d ts\<close>: the operators of \<open>ts\<close> that stand outside
  parentheses, \<open>ts\<close> being read at depth \<open>d\<close>. \<open>cut v d ts\<close> splits \<open>ts\<close> at
  the last operator of strength \<open>v\<close> outside parentheses. \<open>reading ts\<close> is the tree
  of the token list \<open>ts\<close>: a number or a name for a single operand, the reading of
  the inside for a parenthesised group, and otherwise the operator node of the last of
  the loosest operators outside parentheses, over the readings of what stands before it
  and after it; a relational operator with another one before it outside parentheses
  has no reading. \<open>reads k ts n\<close>: \<open>n\<close> is the reading of \<open>ts\<close>, whose
  parentheses match and whose operators outside parentheses have strength \<open>k\<close> at
  least. The token lists are \<^verbatim>\<open>2+3*4\<close>, \<^verbatim>\<open>1<2*3\<close>, \<^verbatim>\<open>2*3+4*5\<close>,
  \<^verbatim>\<open>1+2+3*4\<close> and \<^verbatim>\<open>(1+2)*3\<close>.
\<close>

definition level :: "TokenType \<Rightarrow> nat" where
  "level k =
     (if k = LT \<or> k = EQ \<or> k = GT then 0
      else if k = PLUS \<or> k = MINUS then 1
      else if k = TIMES \<or> k = OVER \<or> k = MOD then 2
      else 3)"


















section \<open>One step of each rule\<close>

lemma op_node_built:
  "set_child1 r (set_attr (Op op) (set_child0 l (newExpNode OpK))) = op_node op l r"
  by (simp add: op_node_def newExpNode_def)

lemma match_token [simp]: "match (token s) s = getToken s"
  by (simp add: match_def)

lemma simple_exp_loop_step:
  "token s = PLUS \<or> token s = MINUS \<Longrightarrow> term_rule (getToken s) = (r, s2) \<Longrightarrow>
     simple_exp_loop t s = simple_exp_loop (Some (op_node (token s) t r)) s2"
  by (subst simple_exp_loop.simps) (simp add: op_node_built)

lemma simple_exp_loop_stop:
  "token s \<noteq> PLUS \<Longrightarrow> token s \<noteq> MINUS \<Longrightarrow> simple_exp_loop t s = (t, s)"
  by (subst simple_exp_loop.simps) simp

lemma term_loop_step:
  "token s = TIMES \<or> token s = OVER \<or> token s = MOD \<Longrightarrow> factor (getToken s) = (r, s2) \<Longrightarrow>
     term_loop t s = term_loop (Some (op_node (token s) t r)) s2"
  by (subst term_loop.simps) (simp add: op_node_built)

lemma term_loop_stop:
  "token s \<noteq> TIMES \<Longrightarrow> token s \<noteq> OVER \<Longrightarrow> token s \<noteq> MOD \<Longrightarrow> term_loop t s = (t, s)"
  by (subst term_loop.simps) simp

lemma exp_rel:
  "simple_exp s = (l, s1) \<Longrightarrow> token s1 = LT \<or> token s1 = EQ \<or> token s1 = GT \<Longrightarrow>
   simple_exp (getToken s1) = (r, s2) \<Longrightarrow> exp s = (Some (op_node (token s1) l r), s2)"
  by (subst exp.simps) (simp add: op_node_built)

lemma exp_no_rel:
  "simple_exp s = (l, s1) \<Longrightarrow> token s1 \<noteq> LT \<Longrightarrow> token s1 \<noteq> EQ \<Longrightarrow> token s1 \<noteq> GT \<Longrightarrow>
   exp s = (l, s1)"
  by (subst exp.simps) simp


lemma stmt_sequence_unfold:
  "statement s = (t, s1) \<Longrightarrow> stmt_sequence s = stmt_sequence_loop t s1"
  by (simp add: stmt_sequence.simps)

lemma stmt_sequence_loop_stop:
  "terminator (token s) \<Longrightarrow> stmt_sequence_loop t s = (t, s)"
  by (subst stmt_sequence_loop.simps) (auto simp: terminator_def)

lemma stmt_sequence_loop_step:
  "\<not> terminator (token s) \<Longrightarrow> statement (match SEMI s) = (q, s2) \<Longrightarrow>
   stmt_sequence_loop t s = stmt_sequence_loop (link_stmt t q) s2"
  by (subst stmt_sequence_loop.simps) (auto simp: terminator_def)

lemma assign_stmt_unfold:
  "exp (match ASSIGN (match ID s)) = (c0, s3) \<Longrightarrow>
   assign_stmt s = (Some (stmt_node AssignK (name_at s) c0 None None), s3)"
  by (simp add: assign_stmt_def stmt_node_def name_at_def newStmtNode_def copyString_def)

lemma read_stmt_unfold:
  "read_stmt s
     = (Some (stmt_node ReadK (name_at (match READ s)) None None None), match ID (match READ s))"
  by (simp add: read_stmt_def stmt_node_def name_at_def newStmtNode_def copyString_def Let_def)

lemma write_stmt_unfold:
  "exp (match WRITE s) = (c0, s2) \<Longrightarrow>
   write_stmt s = (Some (stmt_node WriteK NoAttr c0 None None), s2)"
  by (simp add: write_stmt_def stmt_node_def newStmtNode_def)

lemma if_stmt_unfold:
  "exp (match LPAREN (match IF s)) = (c0, s3) \<Longrightarrow>
   stmt_sequence (match THEN_TOK (match RPAREN s3)) = (c1, s6) \<Longrightarrow>
   stmt_sequence (match ELSE s6) = (c2, s8) \<Longrightarrow>
   if_stmt s
     = (if token s6 = ELSE then (Some (stmt_node IfK NoAttr c0 c1 c2), match END s8)
        else (Some (stmt_node IfK NoAttr c0 c1 None), match END s6))"
  by (simp add: if_stmt.simps stmt_node_def newStmtNode_def)

lemma repeat_stmt_unfold:
  "stmt_sequence (match REPEAT s) = (c0, s2) \<Longrightarrow> exp (match UNTIL s2) = (c1, s4) \<Longrightarrow>
   repeat_stmt s = (Some (stmt_node RepeatK NoAttr c0 c1 None), s4)"
  by (simp add: repeat_stmt.simps stmt_node_def newStmtNode_def)

lemma while_stmt_unfold:
  "exp (match WHILE s) = (c0, s2) \<Longrightarrow> stmt_sequence (match DO s2) = (c1, s4) \<Longrightarrow>
   while_stmt s = (Some (stmt_node WhileK NoAttr c0 c1 None), match ENDWHILE s4)"
  by (simp add: while_stmt.simps stmt_node_def newStmtNode_def)

lemma dowhile_stmt_unfold:
  "stmt_sequence (match DO s) = (c0, s2) \<Longrightarrow>
   exp (match LPAREN (match WHILE s2)) = (c1, s5) \<Longrightarrow>
   dowhile_stmt s = (Some (stmt_node DoWhileK NoAttr c0 c1 None), match RPAREN s5)"
  by (simp add: dowhile_stmt.simps stmt_node_def newStmtNode_def)

lemma for_stmt_unfold:
  "simple_exp (match ASSIGN (match ID (match FOR s))) = (c0, s4) \<Longrightarrow>
   simple_exp (after_direction s4) = (c1, s7) \<Longrightarrow>
   stmt_sequence (match DO s7) = (c2, s9) \<Longrightarrow>
   for_stmt s = (Some (stmt_node ForK (name_at (match FOR s)) c0 c1 c2), match ENDDO s9)"
  by (simp add: for_stmt.simps stmt_node_def newStmtNode_def name_at_def after_direction_def
      copyString_def Let_def)

lemma factor_unfold:
  "factor s =
     (if token s = NUM
      then (Some (TreeNode None None None None (ExpK ConstK) (Val (atoi (tokenString s)))),
            getToken s)
      else if token s = ID
      then (Some (TreeNode None None None None (ExpK IdK) (Name (tokenString s))), getToken s)
      else if token s = LPAREN
      then (fst (exp (getToken s)), match RPAREN (snd (exp (getToken s))))
      else (None, getToken (printToken (syntaxError ''unexpected token -> '' s))))"
  by (auto simp: factor.simps newExpNode_def copyString_def match_def Let_def case_prod_beta)

lemma statement_unfold:
  "statement s =
     (if token s = IF then if_stmt s
      else if token s = REPEAT then repeat_stmt s
      else if token s = ID then assign_stmt s
      else if token s = READ then read_stmt s
      else if token s = WRITE then write_stmt s
      else if token s = WHILE then while_stmt s
      else if token s = DO then dowhile_stmt s
      else if token s = FOR then for_stmt s
      else (None, getToken (printToken (syntaxError ''unexpected token -> '' s))))"
  by (rule statement.simps)


section \<open>Relations between the state before and after a rule\<close>

text \<open>
  A relation on states that is reflexive and transitive and holds across
  \<^verbatim>\<open>match\<close> and across the error branch of a \<^verbatim>\<open>switch\<close> holds across every rule.
\<close>

lemma expr_state_rel:
  assumes Rrefl: "\<And>s. R s s"
    and Rtrans: "\<And>a b c. R a b \<Longrightarrow> R b c \<Longrightarrow> R a c"
    and m: "\<And>e s. R s (match e s)"
    and skip: "\<And>s. R s (getToken (printToken (syntaxError ''unexpected token -> '' s)))"
  shows "R s (snd (exp s))"
    and "R s (snd (simple_exp s))"
    and "R s (snd (simple_exp_loop t s))"
    and "R s (snd (term_rule s))"
    and "R s (snd (term_loop t s))"
    and "R s (snd (factor s))"
proof (induct s and s and t s and s and t s and s
    rule: exp_simple_exp_simple_exp_loop_term_rule_term_loop_factor.induct)
  case (1 s)
  obtain t s1 where a: "simple_exp s = (t, s1)" by (cases "simple_exp s")
  have r1: "R s s1" using 1(1) a by simp
  show ?case
  proof (cases "token s1 = LT \<or> token s1 = EQ \<or> token s1 = GT")
    case True
    obtain r s3 where b: "simple_exp (match (token s1) s1) = (r, s3)"
      by (cases "simple_exp (match (token s1) s1)")
    have "R (match (token s1) s1) s3"
      using 1(2)[OF refl a[symmetric] True refl refl] b by simp
    then have "R s s3" using r1 m Rtrans by blast
    then show ?thesis using a b True by (simp add: exp.simps)
  next
    case False
    then show ?thesis using a r1 by (auto simp: exp.simps)
  qed
next
  case (2 s)
  obtain t s1 where a: "term_rule s = (t, s1)" by (cases "term_rule s")
  have "R s1 (snd (simple_exp_loop t s1))" using 2(2)[OF refl a[symmetric]] .
  moreover have "R s s1" using 2(1) a by simp
  ultimately have "R s (snd (simple_exp_loop t s1))" using Rtrans by blast
  then show ?case using a by (simp add: simple_exp.simps)
next
  case (3 t s)
  show ?case
  proof (cases "token s = PLUS \<or> token s = MINUS")
    case True
    let ?p = "set_attr (Op (token s)) (set_child0 t (newExpNode OpK))"
    obtain r s2 where b: "term_rule (match (token s) s) = (r, s2)"
      by (cases "term_rule (match (token s) s)")
    have "R s2 (snd (simple_exp_loop (Some (set_child1 r ?p)) s2))"
      using 3(2)[OF True refl refl refl b[symmetric]] .
    moreover have "R (match (token s) s) s2" using 3(1)[OF True refl refl] b by simp
    ultimately have "R s (snd (simple_exp_loop (Some (set_child1 r ?p)) s2))"
      using m Rtrans by blast
    then show ?thesis using b True by (subst simple_exp_loop.simps) simp
  next
    case False
    then show ?thesis using Rrefl by (subst simple_exp_loop.simps) auto
  qed
next
  case (4 s)
  obtain t s1 where a: "factor s = (t, s1)" by (cases "factor s")
  have "R s1 (snd (term_loop t s1))" using 4(2)[OF refl a[symmetric]] .
  moreover have "R s s1" using 4(1) a by simp
  ultimately have "R s (snd (term_loop t s1))" using Rtrans by blast
  then show ?case using a by (simp add: term_rule.simps)
next
  case (5 t s)
  show ?case
  proof (cases "token s = TIMES \<or> token s = OVER \<or> token s = MOD")
    case True
    let ?p = "set_attr (Op (token s)) (set_child0 t (newExpNode OpK))"
    obtain r s2 where b: "factor (match (token s) s) = (r, s2)"
      by (cases "factor (match (token s) s)")
    have "R s2 (snd (term_loop (Some (set_child1 r ?p)) s2))"
      using 5(2)[OF True refl refl refl b[symmetric]] .
    moreover have "R (match (token s) s) s2" using 5(1)[OF True refl refl] b by simp
    ultimately have "R s (snd (term_loop (Some (set_child1 r ?p)) s2))"
      using m Rtrans by blast
    then show ?thesis using b True by (subst term_loop.simps) simp
  next
    case False
    then show ?thesis using Rrefl by (subst term_loop.simps) auto
  qed
next
  case (6 s)
  consider (num) "token s = NUM" | (id) "token s \<noteq> NUM" "token s = ID"
    | (paren) "token s \<noteq> NUM" "token s \<noteq> ID" "token s = LPAREN"
    | (other) "token s \<noteq> NUM" "token s \<noteq> ID" "token s \<noteq> LPAREN"
    by blast
  then show ?case
  proof cases
    case num
    then show ?thesis using m by (simp add: factor.simps)
  next
    case id
    then show ?thesis using m by (simp add: factor.simps)
  next
    case paren
    obtain t s2 where b: "exp (match LPAREN s) = (t, s2)" by (cases "exp (match LPAREN s)")
    have "R (match LPAREN s) s2" using 6(1)[OF paren refl] b by simp
    then have "R s (match RPAREN s2)" using m Rtrans by blast
    then show ?thesis using paren b by (simp add: factor.simps)
  next
    case other
    then show ?thesis using skip by (simp add: factor.simps)
  qed
qed


lemma stmt_state_rel:
  assumes Rrefl: "\<And>s. R s s"
    and Rtrans: "\<And>a b c. R a b \<Longrightarrow> R b c \<Longrightarrow> R a c"
    and m: "\<And>e s. R s (match e s)"
    and skip: "\<And>s. R s (getToken (printToken (syntaxError ''unexpected token -> '' s)))"
  shows "R s (snd (stmt_sequence s))"
    and "R s (snd (stmt_sequence_loop t s))"
    and "R s (snd (statement s))"
    and "R s (snd (if_stmt s))"
    and "R s (snd (repeat_stmt s))"
    and "R s (snd (while_stmt s))"
    and "R s (snd (dowhile_stmt s))"
    and "R s (snd (for_stmt s))"
proof -
  have sm: "\<And>a b e. R a b \<Longrightarrow> R a (match e b)" by (rule Rtrans[OF _ m])
  have e: "\<And>u. R u (snd (exp u))" by (rule expr_state_rel(1)[OF Rrefl Rtrans m skip])
  have e': "\<And>u. R u (snd (simple_exp u))"
    by (rule expr_state_rel(2)[OF Rrefl Rtrans m skip])
  have se: "\<And>a b. R a b \<Longrightarrow> R a (snd (exp b))" by (rule Rtrans[OF _ e])
  have ss: "\<And>a b. R a b \<Longrightarrow> R a (snd (simple_exp b))" by (rule Rtrans[OF _ e'])
  have so: "\<And>a b k. R a b \<Longrightarrow> R a (if token b = k then match k b else b)"
    using sm by simp
  show "R s (snd (stmt_sequence s))"
    and "R s (snd (stmt_sequence_loop t s))"
    and "R s (snd (statement s))"
    and "R s (snd (if_stmt s))"
    and "R s (snd (repeat_stmt s))"
    and "R s (snd (while_stmt s))"
    and "R s (snd (dowhile_stmt s))"
    and "R s (snd (for_stmt s))"
  proof (induct s and t s and s and s and s and s and s and s
      rule: stmt_sequence_stmt_sequence_loop_statement_if_stmt_repeat_stmt_while_stmt_dowhile_stmt_for_stmt.induct)
    case (1 s)
    obtain t s1 where a: "statement s = (t, s1)" by (cases "statement s")
    have "R s1 (snd (stmt_sequence_loop t s1))" using 1(2)[OF refl a[symmetric]] .
    moreover have "R s s1" using 1(1) a by simp
    ultimately have "R s (snd (stmt_sequence_loop t s1))" by (rule Rtrans[rotated])
    then show ?case using a by (simp add: stmt_sequence.simps)
  next
    case (2 t s)
    show ?case
    proof (cases "token s \<noteq> ENDFILE \<and> token s \<noteq> END \<and> token s \<noteq> ELSE \<and> token s \<noteq> UNTIL
           \<and> token s \<noteq> WHILE \<and> token s \<noteq> ENDWHILE \<and> token s \<noteq> ENDDO")
      case True
      obtain q s2 where b: "statement (match SEMI s) = (q, s2)"
        by (cases "statement (match SEMI s)")
      have "R (match SEMI s) s2" using 2(1)[OF True refl] b by simp
      then have "R s s2" by (rule Rtrans[OF m])
      moreover have "R s2 (snd (stmt_sequence_loop (link_stmt t q) s2))"
        using 2(2)[OF True refl refl b[symmetric]] .
      ultimately have "R s (snd (stmt_sequence_loop (link_stmt t q) s2))" by (rule Rtrans)
      then show ?thesis using b True by (subst stmt_sequence_loop.simps) simp
    next
      case False
      then show ?thesis using Rrefl by (subst stmt_sequence_loop.simps) auto
    qed
  next
    case (3 s)
    have "R s (snd (exp (match ASSIGN (match ID s))))" by (intro se sm Rrefl)
    then have "R s (snd (assign_stmt s))"
      by (simp add: assign_stmt_def Let_def case_prod_beta)
    moreover have "R s (match ID (match READ s))" by (intro se sm Rrefl)
    then have "R s (snd (read_stmt s))" by (simp add: read_stmt_def Let_def)
    moreover have "R s (snd (exp (match WRITE s)))" by (intro se sm Rrefl)
    then have "R s (snd (write_stmt s))"
      by (simp add: write_stmt_def Let_def case_prod_beta)
    ultimately show ?case using 3 skip by (simp add: statement.simps)
  next
    case (4 s)
    obtain c0 s3 where e1: "exp (match LPAREN (match IF s)) = (c0, s3)"
      by (cases "exp (match LPAREN (match IF s))")
    obtain c1 s6 where q1: "stmt_sequence (match THEN_TOK (match RPAREN s3)) = (c1, s6)"
      by (cases "stmt_sequence (match THEN_TOK (match RPAREN s3))")
    obtain c2 s8 where q2: "stmt_sequence (match ELSE s6) = (c2, s8)"
      by (cases "stmt_sequence (match ELSE s6)")
    have "R s (snd (exp (match LPAREN (match IF s))))" by (intro se sm Rrefl)
    then have "R s s3" using e1 by simp
    then have "R s (match THEN_TOK (match RPAREN s3))" by (intro sm)
    moreover have "R (match THEN_TOK (match RPAREN s3)) s6"
      using 4(1)[OF refl refl refl refl e1[symmetric] refl refl refl] q1 by simp
    ultimately have r6: "R s s6" by (rule Rtrans)
    have res: "snd (if_stmt s) = (if token s6 = ELSE then match END s8 else match END s6)"
      using e1 q1 q2 by (simp add: if_stmt.simps Let_def)
    show ?case
    proof (cases "token s6 = ELSE")
      case True
      have "R (match ELSE s6) s8"
        using 4(2)[OF refl refl refl refl e1[symmetric] refl refl refl refl q1[symmetric]
            refl True refl] q2 by simp
      then have "R s s8" by (rule Rtrans[OF sm[OF r6]])
      then have "R s (match END s8)" by (rule sm)
      then show ?thesis using True by (simp add: res)
    next
      case False
      have "R s (match END s6)" using r6 by (rule sm)
      then show ?thesis using False by (simp add: res)
    qed
  next
    case (5 s)
    obtain c0 s2 where q1: "stmt_sequence (match REPEAT s) = (c0, s2)"
      by (cases "stmt_sequence (match REPEAT s)")
    have "R (match REPEAT s) s2" using 5(1)[OF refl refl] q1 by simp
    then have "R s s2" by (rule Rtrans[OF m])
    then have "R s (snd (exp (match UNTIL s2)))" by (intro se sm)
    moreover have res: "snd (repeat_stmt s) = snd (exp (match UNTIL s2))"
      using q1 by (simp add: repeat_stmt.simps Let_def case_prod_beta)
    ultimately show ?case by simp
  next
    case (6 s)
    obtain c0 s2 where e1: "exp (match WHILE s) = (c0, s2)" by (cases "exp (match WHILE s)")
    obtain c1 s4 where q1: "stmt_sequence (match DO s2) = (c1, s4)"
      by (cases "stmt_sequence (match DO s2)")
    have "R s (snd (exp (match WHILE s)))" by (intro se sm Rrefl)
    then have "R s s2" using e1 by simp
    then have "R s (match DO s2)" by (rule sm)
    moreover have "R (match DO s2) s4"
      using 6(1)[OF refl refl refl e1[symmetric] refl refl] q1 by simp
    ultimately have "R s s4" by (rule Rtrans)
    then have "R s (match ENDWHILE s4)" by (rule sm)
    moreover have res: "snd (while_stmt s) = match ENDWHILE s4"
      using e1 q1 by (simp add: while_stmt.simps Let_def)
    ultimately show ?case by simp
  next
    case (7 s)
    obtain c0 s2 where q1: "stmt_sequence (match DO s) = (c0, s2)"
      by (cases "stmt_sequence (match DO s)")
    have "R (match DO s) s2" using 7(1)[OF refl refl] q1 by simp
    then have "R s s2" by (rule Rtrans[OF m])
    then have "R s (match RPAREN (snd (exp (match LPAREN (match WHILE s2)))))"
      by (intro se sm)
    moreover have res: "snd (dowhile_stmt s)
        = match RPAREN (snd (exp (match LPAREN (match WHILE s2))))"
      using q1 by (simp add: dowhile_stmt.simps Let_def case_prod_beta)
    ultimately show ?case by simp
  next
    case (8 s)
    obtain c0 s4 where e1: "simple_exp (match ASSIGN (match ID (match FOR s))) = (c0, s4)"
      by (cases "simple_exp (match ASSIGN (match ID (match FOR s)))")
    let ?s5 = "if token s4 = TO then match TO s4 else s4"
    let ?s6 = "if token ?s5 = DOWNTO then match DOWNTO ?s5 else ?s5"
    obtain c1 s7 where e2: "simple_exp ?s6 = (c1, s7)" by (cases "simple_exp ?s6")
    obtain c2 s9 where q1: "stmt_sequence (match DO s7) = (c2, s9)"
      by (cases "stmt_sequence (match DO s7)")
    have "R s (snd (simple_exp (match ASSIGN (match ID (match FOR s)))))"
      by (intro ss sm Rrefl)
    then have "R s s4" using e1 by simp
    then have "R s ?s5" by (rule so)
    then have "R s ?s6" by (rule so)
    then have "R s (snd (simple_exp ?s6))" by (rule ss)
    then have "R s s7" using e2 by simp
    then have "R s (match DO s7)" by (rule sm)
    moreover have "R (match DO s7) s9"
      using 8(1)[OF refl refl refl refl refl refl e1[symmetric] refl refl refl refl
          e2[symmetric] refl refl] q1 by simp
    ultimately have "R s s9" by (rule Rtrans)
    then have "R s (match ENDDO s9)" by (rule sm)
    moreover have res: "snd (for_stmt s) = match ENDDO s9"
      using e1 e2 q1 by (simp add: for_stmt.simps Let_def)
    ultimately show ?case by simp
  qed
qed


section \<open>Diagnostics and the error flag\<close>

lemma reports_refl: "reports s s"
  unfolding reports_def by (rule exI[of _ "[]"]) simp

lemma reports_trans: "reports a b \<Longrightarrow> reports b c \<Longrightarrow> reports a c"
proof -
  assume "reports a b" "reports b c"
  then obtain d1 d2 where
    1: "listing b = listing a @ concat (map (\<lambda>(k, str). diag k str) d1)"
       "Error b = (Error a \<or> d1 \<noteq> [])"
    and 2: "listing c = listing b @ concat (map (\<lambda>(k, str). diag k str) d2)"
       "Error c = (Error b \<or> d2 \<noteq> [])"
    unfolding reports_def by blast
  show ?thesis
    unfolding reports_def by (rule exI[of _ "d1 @ d2"]) (simp add: 1 2)
qed

lemma reports_getToken: "reports s (getToken s)"
  unfolding reports_def
  by (rule exI[of _ "[]"]) (simp add: getToken_def split: list.splits)

lemma reports_unexpected:
  "reports s (printToken (syntaxError ''unexpected token -> '' s))"
  unfolding reports_def
  by (rule exI[of _ "[(token s, tokenString s)]"])
     (simp add: printToken_def syntaxError_def diag_def)

lemma reports_skip:
  "reports s (getToken (printToken (syntaxError ''unexpected token -> '' s)))"
  using reports_trans[OF reports_unexpected reports_getToken] .

lemma reports_match: "reports s (match e s)"
  by (simp add: match_def reports_getToken reports_unexpected)

lemma reports_expr:
  shows "reports s (snd (exp s))"
    and "reports s (snd (simple_exp s))"
    and "reports s (snd (simple_exp_loop t s))"
    and "reports s (snd (term_rule s))"
    and "reports s (snd (term_loop t s))"
    and "reports s (snd (factor s))"
  by (rule expr_state_rel[where R = reports], rule reports_refl, erule reports_trans,
      assumption, rule reports_match, rule reports_skip)+

lemma reports_stmt:
  shows "reports s (snd (stmt_sequence s))"
    and "reports s (snd (stmt_sequence_loop t s))"
    and "reports s (snd (statement s))"
    and "reports s (snd (if_stmt s))"
    and "reports s (snd (repeat_stmt s))"
    and "reports s (snd (while_stmt s))"
    and "reports s (snd (dowhile_stmt s))"
    and "reports s (snd (for_stmt s))"
  by (rule stmt_state_rel[where R = reports], rule reports_refl, erule reports_trans,
      assumption, rule reports_match, rule reports_skip)+

lemma reports_Error: "reports s s' \<Longrightarrow> Error s \<Longrightarrow> Error s'"
  by (auto simp: reports_def)

lemma reports_no_Error:
  "reports s s' \<Longrightarrow> \<not> Error s' \<Longrightarrow> \<not> Error s \<and> listing s' = listing s"
  by (auto simp: reports_def)

lemma reports_new:
  assumes "reports s s'"
  shows "\<exists>new. listing s' = listing s @ new
           \<and> (Error s' \<longleftrightarrow> Error s \<or> (\<exists>m. SyntaxErrorLine m \<in> set new))
           \<and> (\<forall>m. SyntaxErrorLine m \<in> set new \<longrightarrow> m = ''unexpected token -> '')"
proof -
  obtain ds where d: "listing s' = listing s @ concat (map (\<lambda>(k, str). diag k str) ds)"
    "Error s' = (Error s \<or> ds \<noteq> [])"
    using assms unfolding reports_def by blast
  let ?new = "concat (map (\<lambda>(k, str). diag k str) ds)"
  have a: "(\<exists>m. SyntaxErrorLine m \<in> set ?new) \<longleftrightarrow> ds \<noteq> []"
    by (cases ds) (auto simp: diag_def)
  have b: "\<forall>m. SyntaxErrorLine m \<in> set ?new \<longrightarrow> m = ''unexpected token -> ''"
    by (auto simp: diag_def)
  show ?thesis
    by (rule exI[of _ ?new]) (use d a b in blast)
qed


section \<open>Cursor movement\<close>

lemma statement_other:
  "token s \<notin> {IF, REPEAT, ID, READ, WRITE, WHILE, DO, FOR} \<Longrightarrow>
   statement s = (None, getToken (printToken (syntaxError ''unexpected token -> '' s)))"
  by (simp add: statement.simps)

lemma factor_other:
  "token s \<notin> {NUM, ID, LPAREN} \<Longrightarrow>
   factor s = (None, getToken (printToken (syntaxError ''unexpected token -> '' s)))"
  by (simp add: factor.simps)

lemma unexpected_eq:
  "printToken (syntaxError ''unexpected token -> '' s)
     = s\<lparr>listing := listing s @ diag (token s) (tokenString s), Error := True\<rparr>"
  by (simp add: printToken_def syntaxError_def diag_def)

text \<open>
  C6. \<^verbatim>\<open>match\<close> on the expected kind is one call of the scanner; on another kind it
  leaves the cursor where it is, sets the flag and writes one diagnostic. The error
  branch of \<^verbatim>\<open>statement\<close> (the lookahead starts no statement) and of \<^verbatim>\<open>factor\<close>
  (the lookahead starts no factor) write one diagnostic, set the flag, return no node
  and call the scanner once. One call of the scanner moves the cursor by one token:
  the lookahead becomes the first token not yet delivered (end of input if there is
  none), and flag and listing stay as they are.
\<close>

theorem cursor_movement:
  "(token s1 = e1 \<longrightarrow> match e1 s1 = getToken s1)
   \<and> (token s2 \<noteq> e2 \<longrightarrow>
        cursor (match e2 s2) = cursor s2 \<and> Error (match e2 s2)
        \<and> listing (match e2 s2) = listing s2 @ diag (token s2) (tokenString s2))
   \<and> (token s3 \<notin> {IF, REPEAT, ID, READ, WRITE, WHILE, DO, FOR} \<longrightarrow>
        statement s3
          = (None, getToken (s3\<lparr>listing := listing s3 @ diag (token s3) (tokenString s3),
                                 Error := True\<rparr>)))
   \<and> (token s4 \<notin> {NUM, ID, LPAREN} \<longrightarrow>
        factor s4
          = (None, getToken (s4\<lparr>listing := listing s4 @ diag (token s4) (tokenString s4),
                                 Error := True\<rparr>)))
   \<and> input (getToken s) = tl (input s)
   \<and> (token (getToken s), tokenString (getToken s))
        = (case input s of [] \<Rightarrow> (ENDFILE, []) | x # rest \<Rightarrow> x)
   \<and> Error (getToken s) = Error s \<and> listing (getToken s) = listing s"
proof -
  have "token s2 \<noteq> e2 \<longrightarrow>
        cursor (match e2 s2) = cursor s2 \<and> Error (match e2 s2)
        \<and> listing (match e2 s2) = listing s2 @ diag (token s2) (tokenString s2)"
    by (simp add: match_def cursor_def unexpected_eq)
  moreover have "token s3 \<notin> {IF, REPEAT, ID, READ, WRITE, WHILE, DO, FOR} \<longrightarrow>
        statement s3
          = (None, getToken (s3\<lparr>listing := listing s3 @ diag (token s3) (tokenString s3),
                                 Error := True\<rparr>))"
    using statement_other[of s3] by (simp only: unexpected_eq) blast
  moreover have "token s4 \<notin> {NUM, ID, LPAREN} \<longrightarrow>
        factor s4
          = (None, getToken (s4\<lparr>listing := listing s4 @ diag (token s4) (tokenString s4),
                                 Error := True\<rparr>))"
    using factor_other[of s4] by (simp only: unexpected_eq) blast
  moreover have "input (getToken s) = tl (input s)
   \<and> (token (getToken s), tokenString (getToken s))
        = (case input s of [] \<Rightarrow> (ENDFILE, []) | x # rest \<Rightarrow> x)
   \<and> Error (getToken s) = Error s \<and> listing (getToken s) = listing s"
    by (simp add: getToken_def split: list.splits)
  ultimately show ?thesis by (simp add: match_def)
qed

theorem cursor_movement_witness:
  "match ID (getToken (fresh sample)) = getToken (getToken (fresh sample))
   \<and> cursor (match SEMI (getToken (fresh sample))) = cursor (getToken (fresh sample))
   \<and> Error (match SEMI (getToken (fresh sample)))
   \<and> listing (match SEMI (getToken (fresh sample))) = diag ID ''x''
   \<and> statement (getToken (getToken (fresh sample)))
       = (None, \<lparr>token = NUM, tokenString = ''1'', input = [], Error = True,
                  listing = diag ASSIGN '':=''\<rparr>)
   \<and> factor (getToken (getToken (fresh sample)))
       = (None, \<lparr>token = NUM, tokenString = ''1'', input = [], Error = True,
                  listing = diag ASSIGN '':=''\<rparr>)"
  using cursor_movement[of "getToken (fresh sample)" ID "getToken (fresh sample)" SEMI
      "getToken (getToken (fresh sample))" "getToken (getToken (fresh sample))" "fresh sample"]
  by (simp add: sample_def fresh_def getToken_def)


section \<open>Evaluation on a given input\<close>

lemmas eval_rules = started_def fresh_def getToken_def match_def syntaxError_def printToken_def
  exp.simps simple_exp.simps simple_exp_loop.simps term_rule.simps term_loop.simps factor.simps
  newExpNode_def newStmtNode_def atoi_def to_int_def is_digit_def copyString_def op_node_def num_def


lemmas eval_stmt_rules = parse_def stmt_sequence.simps stmt_sequence_loop.simps statement.simps
  if_stmt.simps repeat_stmt.simps while_stmt.simps dowhile_stmt.simps for_stmt.simps
  assign_stmt_def read_stmt_def write_stmt_def link_stmt_def eval_rules

section \<open>Associativity and precedence\<close>

lemma term_rule_single:
  "factor s = (a, s1) \<Longrightarrow> token s1 \<notin> {TIMES, OVER, MOD} \<Longrightarrow> term_rule s = (a, s1)"
  by (simp add: term_rule.simps term_loop_stop)

lemma term_rule_pair:
  "factor s = (a, s1) \<Longrightarrow> token s1 \<in> {TIMES, OVER, MOD} \<Longrightarrow>
   factor (getToken s1) = (b, s2) \<Longrightarrow> token s2 \<notin> {TIMES, OVER, MOD} \<Longrightarrow>
   term_rule s = (Some (op_node (token s1) a b), s2)"
  by (simp add: term_rule.simps term_loop_step[of s1 b s2] term_loop_stop)

lemma simple_exp_single:
  "term_rule s = (a, s1) \<Longrightarrow> token s1 \<notin> {PLUS, MINUS} \<Longrightarrow> simple_exp s = (a, s1)"
  by (simp add: simple_exp.simps simple_exp_loop_stop)

lemma simple_exp_pair:
  "term_rule s = (a, s1) \<Longrightarrow> token s1 \<in> {PLUS, MINUS} \<Longrightarrow>
   term_rule (getToken s1) = (b, s2) \<Longrightarrow> token s2 \<notin> {PLUS, MINUS} \<Longrightarrow>
   simple_exp s = (Some (op_node (token s1) a b), s2)"
  by (simp add: simple_exp.simps simple_exp_loop_step[of s1 b s2] simple_exp_loop_stop)

text \<open>
  C3. Three operands at the additive level, whatever \<open>term_rule\<close> parses as an
  operand, with two additive operators between them and no third one after them:
  \<open>simple_exp\<close> returns the node of the second operator, whose left child is the node
  of the first operator over the first two operands and whose right child is the third
  operand. The same for \<open>term_rule\<close> with the operands of \<open>factor\<close> and the
  multiplicative operators.
\<close>

theorem left_assoc:
  "(term_rule s0 = (a, s1) \<and> token s1 \<in> {PLUS, MINUS} \<and>
    term_rule (getToken s1) = (b, s2) \<and> token s2 \<in> {PLUS, MINUS} \<and>
    term_rule (getToken s2) = (c, s3) \<and> token s3 \<notin> {PLUS, MINUS}
    \<longrightarrow> simple_exp s0
          = (Some (op_node (token s2) (Some (op_node (token s1) a b)) c), s3))
   \<and>
   (factor u0 = (x, u1) \<and> token u1 \<in> {TIMES, OVER, MOD} \<and>
    factor (getToken u1) = (y, u2) \<and> token u2 \<in> {TIMES, OVER, MOD} \<and>
    factor (getToken u2) = (z, u3) \<and> token u3 \<notin> {TIMES, OVER, MOD}
    \<longrightarrow> term_rule u0
          = (Some (op_node (token u2) (Some (op_node (token u1) x y)) z), u3))"
proof (intro conjI impI)
  assume h: "term_rule s0 = (a, s1) \<and> token s1 \<in> {PLUS, MINUS} \<and>
    term_rule (getToken s1) = (b, s2) \<and> token s2 \<in> {PLUS, MINUS} \<and>
    term_rule (getToken s2) = (c, s3) \<and> token s3 \<notin> {PLUS, MINUS}"
  have "simple_exp s0 = simple_exp_loop a s1"
    using h by (simp add: simple_exp.simps)
  also have "\<dots> = simple_exp_loop (Some (op_node (token s1) a b)) s2"
    using h by (intro simple_exp_loop_step) auto
  also have "\<dots> = simple_exp_loop (Some (op_node (token s2) (Some (op_node (token s1) a b)) c)) s3"
    using h by (intro simple_exp_loop_step) auto
  also have "\<dots> = (Some (op_node (token s2) (Some (op_node (token s1) a b)) c), s3)"
    using h by (intro simple_exp_loop_stop) auto
  finally show "simple_exp s0
          = (Some (op_node (token s2) (Some (op_node (token s1) a b)) c), s3)" .
next
  assume h: "factor u0 = (x, u1) \<and> token u1 \<in> {TIMES, OVER, MOD} \<and>
    factor (getToken u1) = (y, u2) \<and> token u2 \<in> {TIMES, OVER, MOD} \<and>
    factor (getToken u2) = (z, u3) \<and> token u3 \<notin> {TIMES, OVER, MOD}"
  have "term_rule u0 = term_loop x u1"
    using h by (simp add: term_rule.simps)
  also have "\<dots> = term_loop (Some (op_node (token u1) x y)) u2"
    using h by (intro term_loop_step) auto
  also have "\<dots> = term_loop (Some (op_node (token u2) (Some (op_node (token u1) x y)) z)) u3"
    using h by (intro term_loop_step) auto
  also have "\<dots> = (Some (op_node (token u2) (Some (op_node (token u1) x y)) z), u3)"
    using h by (intro term_loop_stop) auto
  finally show "term_rule u0
          = (Some (op_node (token u2) (Some (op_node (token u1) x y)) z), u3)" .
qed


theorem left_assoc_witness:
  "fst (simple_exp ex_sub_sub)
     = Some (op_node MINUS (Some (op_node MINUS (num ''1'') (num ''2''))) (num ''3''))
   \<and> fst (simple_exp ex_sub_add)
     = Some (op_node PLUS (Some (op_node MINUS (num ''1'') (num ''2''))) (num ''3''))
   \<and> fst (term_rule ex_div_mul)
     = Some (op_node TIMES (Some (op_node OVER (num ''8'') (num ''4''))) (num ''2''))"
proof -
  note l = left_assoc[of
      ex_sub_sub "fst (term_rule ex_sub_sub)" "snd (term_rule ex_sub_sub)"
      "fst (term_rule (getToken (snd (term_rule ex_sub_sub))))"
      "snd (term_rule (getToken (snd (term_rule ex_sub_sub))))"
      "fst (term_rule (getToken (snd (term_rule (getToken (snd (term_rule ex_sub_sub)))))))"
      "snd (term_rule (getToken (snd (term_rule (getToken (snd (term_rule ex_sub_sub)))))))"
      ex_div_mul "fst (factor ex_div_mul)" "snd (factor ex_div_mul)"
      "fst (factor (getToken (snd (factor ex_div_mul))))"
      "snd (factor (getToken (snd (factor ex_div_mul))))"
      "fst (factor (getToken (snd (factor (getToken (snd (factor ex_div_mul)))))))"
      "snd (factor (getToken (snd (factor (getToken (snd (factor ex_div_mul)))))))"]
  note l' = left_assoc[of
      ex_sub_add "fst (term_rule ex_sub_add)" "snd (term_rule ex_sub_add)"
      "fst (term_rule (getToken (snd (term_rule ex_sub_add))))"
      "snd (term_rule (getToken (snd (term_rule ex_sub_add))))"
      "fst (term_rule (getToken (snd (term_rule (getToken (snd (term_rule ex_sub_add)))))))"
      "snd (term_rule (getToken (snd (term_rule (getToken (snd (term_rule ex_sub_add)))))))"
      ex_div_mul "fst (factor ex_div_mul)" "snd (factor ex_div_mul)"
      "fst (factor (getToken (snd (factor ex_div_mul))))"
      "snd (factor (getToken (snd (factor ex_div_mul))))"
      "fst (factor (getToken (snd (factor (getToken (snd (factor ex_div_mul)))))))"
      "snd (factor (getToken (snd (factor (getToken (snd (factor ex_div_mul)))))))"]
  show ?thesis
    using l l' by (simp add: ex_sub_sub_def ex_sub_add_def ex_div_mul_def eval_rules)
qed

text \<open>
  Shapes of three and four operands, the operands being whatever \<open>factor\<close> parses. In \<^verbatim>\<open>a + b * c\<close> the product is the right
  child of the sum, in \<^verbatim>\<open>a * b + c\<close> its left child; in \<^verbatim>\<open>a < b + c\<close> the sum is the
  right child of the comparison, in \<^verbatim>\<open>a + b < c\<close> its left child; in
  \<^verbatim>\<open>a < b + c * d\<close> the comparison is over the sum, which is over the product.
\<close>

lemma precedence_shapes:
  "(factor s0 = (a, s1) \<and> token s1 \<in> {PLUS, MINUS} \<and>
    factor (getToken s1) = (b, s2) \<and> token s2 \<in> {TIMES, OVER, MOD} \<and>
    factor (getToken s2) = (c, s3) \<and>
    token s3 \<notin> {TIMES, OVER, MOD, PLUS, MINUS, LT, EQ, GT}
    \<longrightarrow> exp s0 = (Some (op_node (token s1) a (Some (op_node (token s2) b c))), s3))
   \<and>
   (factor t0 = (d, t1) \<and> token t1 \<in> {TIMES, OVER, MOD} \<and>
    factor (getToken t1) = (e, t2) \<and> token t2 \<in> {PLUS, MINUS} \<and>
    factor (getToken t2) = (f, t3) \<and>
    token t3 \<notin> {TIMES, OVER, MOD, PLUS, MINUS, LT, EQ, GT}
    \<longrightarrow> exp t0 = (Some (op_node (token t2) (Some (op_node (token t1) d e)) f), t3))
   \<and>
   (factor u0 = (x, u1) \<and> token u1 \<in> {LT, EQ, GT} \<and>
    factor (getToken u1) = (y, u2) \<and> token u2 \<in> {PLUS, MINUS} \<and>
    factor (getToken u2) = (z, u3) \<and> token u3 \<notin> {TIMES, OVER, MOD, PLUS, MINUS}
    \<longrightarrow> exp u0 = (Some (op_node (token u1) x (Some (op_node (token u2) y z))), u3))
   \<and>
   (factor v0 = (p, v1) \<and> token v1 \<in> {PLUS, MINUS} \<and>
    factor (getToken v1) = (q, v2) \<and> token v2 \<in> {LT, EQ, GT} \<and>
    factor (getToken v2) = (r, v3) \<and> token v3 \<notin> {TIMES, OVER, MOD, PLUS, MINUS}
    \<longrightarrow> exp v0 = (Some (op_node (token v2) (Some (op_node (token v1) p q)) r), v3))
   \<and>
   (factor w0 = (g, w1) \<and> token w1 \<in> {LT, EQ, GT} \<and>
    factor (getToken w1) = (h, w2) \<and> token w2 \<in> {PLUS, MINUS} \<and>
    factor (getToken w2) = (i, w3) \<and> token w3 \<in> {TIMES, OVER, MOD} \<and>
    factor (getToken w3) = (j, w4) \<and> token w4 \<notin> {TIMES, OVER, MOD, PLUS, MINUS}
    \<longrightarrow> exp w0 = (Some (op_node (token w1) g
                     (Some (op_node (token w2) h (Some (op_node (token w3) i j))))), w4))"
proof (intro conjI impI; elim conjE)
  assume h: "factor s0 = (a, s1)" "token s1 \<in> {PLUS, MINUS}"
    "factor (getToken s1) = (b, s2)" "token s2 \<in> {TIMES, OVER, MOD}"
    "factor (getToken s2) = (c, s3)"
    "token s3 \<notin> {TIMES, OVER, MOD, PLUS, MINUS, LT, EQ, GT}"
  have 1: "term_rule s0 = (a, s1)" using h by (intro term_rule_single) auto
  have 2: "term_rule (getToken s1) = (Some (op_node (token s2) b c), s3)"
    using h by (intro term_rule_pair) auto
  have "simple_exp s0 = (Some (op_node (token s1) a (Some (op_node (token s2) b c))), s3)"
    using 1 h(2) 2 h(6) by (intro simple_exp_pair) auto
  then show "exp s0 = (Some (op_node (token s1) a (Some (op_node (token s2) b c))), s3)"
    using h(6) by (intro exp_no_rel) auto
next
  assume h: "factor t0 = (d, t1)" "token t1 \<in> {TIMES, OVER, MOD}"
    "factor (getToken t1) = (e, t2)" "token t2 \<in> {PLUS, MINUS}"
    "factor (getToken t2) = (f, t3)"
    "token t3 \<notin> {TIMES, OVER, MOD, PLUS, MINUS, LT, EQ, GT}"
  have 1: "term_rule t0 = (Some (op_node (token t1) d e), t2)"
    using h by (intro term_rule_pair) auto
  have 2: "term_rule (getToken t2) = (f, t3)" using h by (intro term_rule_single) auto
  have "simple_exp t0 = (Some (op_node (token t2) (Some (op_node (token t1) d e)) f), t3)"
    using 1 h(4) 2 h(6) by (intro simple_exp_pair) auto
  then show "exp t0 = (Some (op_node (token t2) (Some (op_node (token t1) d e)) f), t3)"
    using h(6) by (intro exp_no_rel) auto
next
  assume h: "factor u0 = (x, u1)" "token u1 \<in> {LT, EQ, GT}"
    "factor (getToken u1) = (y, u2)" "token u2 \<in> {PLUS, MINUS}"
    "factor (getToken u2) = (z, u3)" "token u3 \<notin> {TIMES, OVER, MOD, PLUS, MINUS}"
  have 1: "simple_exp u0 = (x, u1)"
    using h by (intro simple_exp_single term_rule_single) auto
  have 2: "term_rule (getToken u1) = (y, u2)" using h by (intro term_rule_single) auto
  have 3: "term_rule (getToken u2) = (z, u3)" using h by (intro term_rule_single) auto
  have "simple_exp (getToken u1) = (Some (op_node (token u2) y z), u3)"
    using 2 h(4) 3 h(6) by (intro simple_exp_pair) auto
  then show "exp u0 = (Some (op_node (token u1) x (Some (op_node (token u2) y z))), u3)"
    using 1 h(2) by (intro exp_rel) auto
next
  assume h: "factor v0 = (p, v1)" "token v1 \<in> {PLUS, MINUS}"
    "factor (getToken v1) = (q, v2)" "token v2 \<in> {LT, EQ, GT}"
    "factor (getToken v2) = (r, v3)" "token v3 \<notin> {TIMES, OVER, MOD, PLUS, MINUS}"
  have 1: "term_rule v0 = (p, v1)" using h by (intro term_rule_single) auto
  have 2: "term_rule (getToken v1) = (q, v2)" using h by (intro term_rule_single) auto
  have 3: "simple_exp v0 = (Some (op_node (token v1) p q), v2)"
    using 1 h(2) 2 h(4) by (intro simple_exp_pair) auto
  have 4: "simple_exp (getToken v2) = (r, v3)"
    using h by (intro simple_exp_single term_rule_single) auto
  show "exp v0 = (Some (op_node (token v2) (Some (op_node (token v1) p q)) r), v3)"
    using 3 h(4) 4 by (intro exp_rel) auto
next
  assume h: "factor w0 = (g, w1)" "token w1 \<in> {LT, EQ, GT}"
    "factor (getToken w1) = (h, w2)" "token w2 \<in> {PLUS, MINUS}"
    "factor (getToken w2) = (i, w3)" "token w3 \<in> {TIMES, OVER, MOD}"
    "factor (getToken w3) = (j, w4)" "token w4 \<notin> {TIMES, OVER, MOD, PLUS, MINUS}"
  have 1: "simple_exp w0 = (g, w1)"
    using h by (intro simple_exp_single term_rule_single) auto
  have 2: "term_rule (getToken w1) = (h, w2)" using h by (intro term_rule_single) auto
  have 3: "term_rule (getToken w2) = (Some (op_node (token w3) i j), w4)"
    using h by (intro term_rule_pair) auto
  have "simple_exp (getToken w1)
      = (Some (op_node (token w2) h (Some (op_node (token w3) i j))), w4)"
    using 2 h(4) 3 h(8) by (intro simple_exp_pair) auto
  then show "exp w0 = (Some (op_node (token w1) g
                     (Some (op_node (token w2) h (Some (op_node (token w3) i j))))), w4)"
    using 1 h(2) by (intro exp_rel) auto
qed


lemma precedence_shapes_at:
  "fst (exp ex_add_mul) = Some (op_node PLUS (num ''2'') (Some (op_node TIMES (num ''3'') (num ''4''))))
   \<and> fst (exp ex_mul_add) = Some (op_node PLUS (Some (op_node TIMES (num ''2'') (num ''3''))) (num ''4''))
   \<and> fst (exp ex_rel_add) = Some (op_node LT (num ''1'') (Some (op_node PLUS (num ''2'') (num ''3''))))
   \<and> fst (exp ex_add_rel) = Some (op_node LT (Some (op_node PLUS (num ''1'') (num ''2''))) (num ''3''))
   \<and> fst (exp ex_rel_add_mul) = Some (op_node LT (num ''1'')
        (Some (op_node PLUS (num ''2'') (Some (op_node TIMES (num ''3'') (num ''4''))))))"
proof -
  have f: "\<And>s. factor s = (fst (factor s), snd (factor s))" by simp
  note p = precedence_shapes[of 
      ex_add_mul "fst (factor ex_add_mul)" "snd (factor ex_add_mul)"
      "fst (factor (getToken (snd (factor ex_add_mul))))" "snd (factor (getToken (snd (factor ex_add_mul))))"
      "fst (factor (getToken (snd (factor (getToken (snd (factor ex_add_mul)))))))"
      "snd (factor (getToken (snd (factor (getToken (snd (factor ex_add_mul)))))))"
      ex_mul_add "fst (factor ex_mul_add)" "snd (factor ex_mul_add)"
      "fst (factor (getToken (snd (factor ex_mul_add))))" "snd (factor (getToken (snd (factor ex_mul_add))))"
      "fst (factor (getToken (snd (factor (getToken (snd (factor ex_mul_add)))))))"
      "snd (factor (getToken (snd (factor (getToken (snd (factor ex_mul_add)))))))"
      ex_rel_add "fst (factor ex_rel_add)" "snd (factor ex_rel_add)"
      "fst (factor (getToken (snd (factor ex_rel_add))))" "snd (factor (getToken (snd (factor ex_rel_add))))"
      "fst (factor (getToken (snd (factor (getToken (snd (factor ex_rel_add)))))))"
      "snd (factor (getToken (snd (factor (getToken (snd (factor ex_rel_add)))))))"
      ex_add_rel "fst (factor ex_add_rel)" "snd (factor ex_add_rel)"
      "fst (factor (getToken (snd (factor ex_add_rel))))" "snd (factor (getToken (snd (factor ex_add_rel))))"
      "fst (factor (getToken (snd (factor (getToken (snd (factor ex_add_rel)))))))"
      "snd (factor (getToken (snd (factor (getToken (snd (factor ex_add_rel)))))))"
      ex_rel_add_mul "fst (factor ex_rel_add_mul)" "snd (factor ex_rel_add_mul)"
      "fst (factor (getToken (snd (factor ex_rel_add_mul))))" "snd (factor (getToken (snd (factor ex_rel_add_mul))))"
      "fst (factor (getToken (snd (factor (getToken (snd (factor ex_rel_add_mul)))))))"
      "snd (factor (getToken (snd (factor (getToken (snd (factor ex_rel_add_mul)))))))"
      "fst (factor (getToken (snd (factor (getToken (snd (factor (getToken (snd (factor ex_rel_add_mul))))))))))"
      "snd (factor (getToken (snd (factor (getToken (snd (factor (getToken (snd (factor ex_rel_add_mul))))))))))"]
  show ?thesis
    using p by (simp add: ex_add_mul_def ex_mul_add_def ex_rel_add_def ex_add_rel_def ex_rel_add_mul_def eval_rules)
qed

section \<open>The top level\<close>

text \<open>
  C7. \<^verbatim>\<open>parse\<close> calls the scanner once, then \<^verbatim>\<open>stmt_sequence\<close> once, and returns the
  tree of that call whatever was reported. Its final state is that of the statement
  sequence, with the message for trailing input added exactly when the lookahead is not
  end of input; no other step of the run writes that message.
\<close>

theorem parse_top:
  "fst (parse s) = fst (stmt_sequence (getToken s))
   \<and> snd (parse s)
       = (if token (snd (stmt_sequence (getToken s))) \<noteq> ENDFILE
          then syntaxError (''Code ends before file'' @ [CHR 0x0A])
                 (snd (stmt_sequence (getToken s)))
          else snd (stmt_sequence (getToken s)))
   \<and> (\<exists>new. listing (snd (parse s)) = listing s @ new
          \<and> (SyntaxErrorLine (''Code ends before file'' @ [CHR 0x0A]) \<in> set new
               \<longleftrightarrow> token (snd (stmt_sequence (getToken s))) \<noteq> ENDFILE))"
proof -
  let ?s1 = "snd (stmt_sequence (getToken s))"
  have p: "parse s = (fst (stmt_sequence (getToken s)),
      if token ?s1 \<noteq> ENDFILE
      then syntaxError (''Code ends before file'' @ [CHR 0x0A]) ?s1 else ?s1)"
    by (simp add: parse_def Let_def case_prod_beta)
  have "reports s ?s1"
    using reports_trans[OF reports_getToken reports_stmt(1)] .
  then obtain new where n: "listing ?s1 = listing s @ new"
    "\<forall>m. SyntaxErrorLine m \<in> set new \<longrightarrow> m = ''unexpected token -> ''"
    using reports_new by blast
  have ne: "SyntaxErrorLine (''Code ends before file'' @ [CHR 0x0A]) \<notin> set new"
    using n(2) by auto
  have "\<exists>new. listing (snd (parse s)) = listing s @ new
          \<and> (SyntaxErrorLine (''Code ends before file'' @ [CHR 0x0A]) \<in> set new
               \<longleftrightarrow> token ?s1 \<noteq> ENDFILE)"
  proof (cases "token ?s1 = ENDFILE")
    case True
    then show ?thesis using n(1) ne by (intro exI[of _ new]) (simp add: p)
  next
    case False
    then show ?thesis using n(1)
      by (intro exI[of _ "new @ [SyntaxErrorLine (''Code ends before file'' @ [CHR 0x0A])]"])
         (simp add: p syntaxError_def)
  qed
  then show ?thesis using p by simp
qed


theorem parse_top_witness:
  "parse (fresh sample)
     = (Some (TreeNode (num ''1'') None None None (StmtK AssignK) (Name ''x'')),
        \<lparr>token = ENDFILE, tokenString = [], input = [], Error = False, listing = []\<rparr>)"
  using parse_top[of "fresh sample"]
  by (simp add: parse_def sample_def stmt_sequence.simps stmt_sequence_loop.simps
      statement.simps assign_stmt_def link_stmt_def eval_rules)

section \<open>The for statement\<close>

text \<open>
  C1. The for statement of the specification is parsed into the node the specification
  gives, with nothing reported. The same node, with nothing reported, is returned when
  the input has no directional keyword between the two expressions, and when it has
  \<^verbatim>\<open>to\<close> followed by \<^verbatim>\<open>downto\<close>: \<^verbatim>\<open>for_stmt\<close> passes over either keyword if it is
  there and has no branch for the case that none is.
\<close>

theorem for_direction_not_enforced:
  "parse (fresh for_to) = (Some for_tree, at_end)
   \<and> parse (fresh for_no_direction) = (Some for_tree, at_end)
   \<and> parse (fresh for_both_directions) = (Some for_tree, at_end)"
  by (simp add: for_to_def for_no_direction_def for_both_directions_def for_tree_def at_end_def
      ident_def eval_stmt_rules)

section \<open>A statement sequence that starts at a terminator\<close>

text \<open>
  C10, as stated, fails at the terminator \<^verbatim>\<open>while\<close>, which is also the first token of
  a statement: on \<^verbatim>\<open>while x do write x endwhile\<close> the statement sequence returns the
  while statement and reports nothing.
\<close>

theorem stmt_sequence_at_while_counterexample:
  "token while_first \<in> {ENDFILE, END, ELSE, UNTIL, WHILE, ENDWHILE, ENDDO}
   \<and> stmt_sequence while_first
       = (Some (TreeNode (ident ''x'')
                  (Some (TreeNode (ident ''x'') None None None (StmtK WriteK) NoAttr))
                  None None (StmtK WhileK) NoAttr),
          at_end)
   \<and> listing at_end = [] \<and> \<not> Error at_end"
  by (simp add: while_first_def at_end_def ident_def eval_stmt_rules)

text \<open>
  C10, amended. At every terminator but \<^verbatim>\<open>while\<close> (end of input, \<^verbatim>\<open>end\<close>, \<^verbatim>\<open>else\<close>,
  \<^verbatim>\<open>until\<close>, \<^verbatim>\<open>endwhile\<close>, \<^verbatim>\<open>enddo\<close>) \<^verbatim>\<open>stmt_sequence\<close> first takes the error
  branch of \<^verbatim>\<open>statement\<close>: it writes the diagnostic for that token, sets the flag,
  calls the scanner (the terminator is consumed) and only then enters its loop, with
  no statement so far. At \<^verbatim>\<open>while\<close> it parses a while statement.
\<close>

theorem stmt_sequence_at_terminator:
  "(token s \<in> {ENDFILE, END, ELSE, UNTIL, ENDWHILE, ENDDO} \<longrightarrow>
      stmt_sequence s
        = stmt_sequence_loop None
            (getToken (s\<lparr>listing := listing s @ diag (token s) (tokenString s),
                         Error := True\<rparr>))
      \<and> Error (snd (stmt_sequence s))
      \<and> (\<exists>rest. listing (snd (stmt_sequence s))
                    = listing s @ diag (token s) (tokenString s) @ rest))
   \<and> (token u = WHILE \<longrightarrow>
      stmt_sequence u = stmt_sequence_loop (fst (while_stmt u)) (snd (while_stmt u)))"
proof (intro conjI impI)
  assume t: "token s \<in> {ENDFILE, END, ELSE, UNTIL, ENDWHILE, ENDDO}"
  let ?s1 = "getToken (s\<lparr>listing := listing s @ diag (token s) (tokenString s),
                         Error := True\<rparr>)"
  have st: "statement s = (None, ?s1)"
    using t statement_other[of s] by (auto simp: unexpected_eq)
  then show eq: "stmt_sequence s = stmt_sequence_loop None ?s1"
    by (simp add: stmt_sequence.simps)
  have r: "reports ?s1 (snd (stmt_sequence_loop None ?s1))" by (rule reports_stmt(2))
  have e1: "Error ?s1" "listing ?s1 = listing s @ diag (token s) (tokenString s)"
    by (simp_all add: getToken_def split: list.splits)
  show "Error (snd (stmt_sequence s))"
    using reports_Error[OF r e1(1)] by (simp add: eq)
  obtain new where "listing (snd (stmt_sequence_loop None ?s1)) = listing ?s1 @ new"
    using reports_new[OF r] by blast
  then show "\<exists>rest. listing (snd (stmt_sequence s))
                    = listing s @ diag (token s) (tokenString s) @ rest"
    by (intro exI[of _ new]) (simp add: eq e1(2))
next
  assume "token u = WHILE"
  then show "stmt_sequence u = stmt_sequence_loop (fst (while_stmt u)) (snd (while_stmt u))"
    by (simp add: stmt_sequence.simps statement.simps case_prod_beta)
qed

theorem stmt_sequence_at_terminator_witness:
  "token at_end_keyword \<in> {ENDFILE, END, ELSE, UNTIL, ENDWHILE, ENDDO}
   \<and> stmt_sequence at_end_keyword = (None, at_end\<lparr>Error := True, listing := diag END ''end''\<rparr>)
   \<and> token while_first = WHILE
   \<and> stmt_sequence while_first
       = stmt_sequence_loop (fst (while_stmt while_first)) (snd (while_stmt while_first))"
  using stmt_sequence_at_terminator[of at_end_keyword while_first]
  by (simp add: at_end_keyword_def at_end_def while_first_def diag_def eval_stmt_rules)

text \<open>The example of the claim, \<^verbatim>\<open>if (x) then end\<close>.\<close>

lemma empty_then_parse:
  "if_stmt empty_then
     = (Some (TreeNode (ident ''x'') None None None (StmtK IfK) NoAttr),
        at_end\<lparr>Error := True, listing := diag END ''end'' @ diag ENDFILE []\<rparr>)"
  by (simp add: empty_then_def at_end_def ident_def diag_def eval_stmt_rules)


section \<open>Termination\<close>

lemma remaining_stmt:
  shows "remaining (snd (stmt_sequence s)) \<le> remaining s"
    and "remaining (snd (stmt_sequence_loop t s)) \<le> remaining s"
    and "remaining (snd (statement s)) \<le> remaining s"
    and "token s \<noteq> ENDFILE \<Longrightarrow> remaining (snd (statement s)) < remaining s"
    and "remaining (snd (if_stmt s)) \<le> remaining s"
    and "remaining (snd (repeat_stmt s)) \<le> remaining s"
    and "remaining (snd (while_stmt s)) \<le> remaining s"
    and "remaining (snd (dowhile_stmt s)) \<le> remaining s"
    and "remaining (snd (for_stmt s)) \<le> remaining s"
  using stmt_remaining_partial(1)[OF stmt_total[THEN spec], of s]
    stmt_remaining_partial(2)[OF stmt_total[THEN spec], of t s]
    stmt_remaining_partial(3)[OF stmt_total[THEN spec], of s]
    stmt_remaining_partial(4)[OF stmt_total[THEN spec], of s]
    stmt_remaining_partial(5)[OF stmt_total[THEN spec], of s]
    stmt_remaining_partial(6)[OF stmt_total[THEN spec], of s]
    stmt_remaining_partial(7)[OF stmt_total[THEN spec], of s]
    stmt_remaining_partial(8)[OF stmt_total[THEN spec], of s]
  by simp_all

lemma remaining_expr:
  shows "remaining (snd (simple_exp_loop t s)) \<le> remaining s"
    and "remaining (snd (term_rule s)) \<le> remaining s"
    and "remaining (snd (term_loop t s)) \<le> remaining s"
    and "remaining (snd (factor s)) \<le> remaining s"
  using expr_remaining_partial(3)[OF expr_total[THEN spec], of t s]
    expr_remaining_partial(4)[OF expr_total[THEN spec], of s]
    expr_remaining_partial(5)[OF expr_total[THEN spec], of t s]
    expr_remaining_partial(6)[OF expr_total[THEN spec], of s]
  by simp_all

lemma loop_progress:
  shows "\<not> terminator (token s) \<Longrightarrow>
         remaining (snd (statement (match SEMI s))) < remaining s"
    and "token s \<in> {PLUS, MINUS} \<Longrightarrow>
         remaining (snd (term_rule (match (token s) s))) < remaining s"
    and "token s \<in> {TIMES, OVER, MOD} \<Longrightarrow>
         remaining (snd (factor (match (token s) s))) < remaining s"
proof -
  assume t: "\<not> terminator (token s)"
  then have ne: "token s \<noteq> ENDFILE" by (auto simp: terminator_def)
  show "remaining (snd (statement (match SEMI s))) < remaining s"
  proof (cases "token s = SEMI")
    case True
    then have "remaining (match SEMI s) < remaining s" by (simp add: remaining_match_less)
    then show ?thesis using remaining_stmt(3)[of "match SEMI s"] by simp
  next
    case False
    then have "token (match SEMI s) \<noteq> ENDFILE" using ne by (simp add: token_match_neq)
    then show ?thesis
      using remaining_stmt(4)[of "match SEMI s"] remaining_match[of SEMI s] by simp
  qed
next
  assume "token s \<in> {PLUS, MINUS}"
  then have "remaining (match (token s) s) < remaining s"
    by (intro remaining_match_less) auto
  then show "remaining (snd (term_rule (match (token s) s))) < remaining s"
    using remaining_expr(2)[of "match (token s) s"] by simp
next
  assume "token s \<in> {TIMES, OVER, MOD}"
  then have "remaining (match (token s) s) < remaining s"
    by (intro remaining_match_less) auto
  then show "remaining (snd (factor (match (token s) s))) < remaining s"
    using remaining_expr(4)[of "match (token s) s"] by simp
qed

text \<open>
  C8. The recursion of the rules ends from every state: every argument is in the
  domain of the recursion of the expression rules and of the statement rules (the
  termination proofs above, by the number of tokens still to be consumed). A run of
  \<^verbatim>\<open>parse\<close> starts with no more tokens to consume than the source holds and ends
  with no more. No rule and no \<^verbatim>\<open>match\<close> moves the cursor back; a \<^verbatim>\<open>match\<close> that
  succeeds and an error branch consume a token unless the lookahead is end of input.
  \<^verbatim>\<open>statement\<close> consumes a token unless the lookahead is end of input, although a
  \<^verbatim>\<open>match\<close> that fails consumes none. Each iteration of the three loops ends with
  fewer tokens to consume than it started with.
\<close>

theorem parse_terminates:
  "exp_simple_exp_simple_exp_loop_term_rule_term_loop_factor_dom x
   \<and> stmt_sequence_stmt_sequence_loop_statement_if_stmt_repeat_stmt_while_stmt_dowhile_stmt_for_stmt_dom y
   \<and> remaining (getToken (fresh src)) \<le> length src
   \<and> remaining (snd (parse s)) \<le> length (input s)
   \<and> remaining (match e s) \<le> remaining s
   \<and> (token s = e \<and> e \<noteq> ENDFILE \<longrightarrow> remaining (match e s) < remaining s)
   \<and> (token s \<noteq> ENDFILE \<longrightarrow>
        remaining (getToken (printToken (syntaxError ''unexpected token -> '' s))) < remaining s)
   \<and> remaining (snd (exp s)) \<le> remaining s
   \<and> remaining (snd (simple_exp s)) \<le> remaining s
   \<and> remaining (snd (term_rule s)) \<le> remaining s
   \<and> remaining (snd (factor s)) \<le> remaining s
   \<and> remaining (snd (stmt_sequence s)) \<le> remaining s
   \<and> remaining (snd (statement s)) \<le> remaining s
   \<and> (token s \<noteq> ENDFILE \<longrightarrow> remaining (snd (statement s)) < remaining s)
   \<and> (\<not> terminator (token s) \<longrightarrow>
        remaining (snd (statement (match SEMI s))) < remaining s)
   \<and> (token s \<in> {PLUS, MINUS} \<longrightarrow>
        remaining (snd (term_rule (match (token s) s))) < remaining s)
   \<and> (token s \<in> {TIMES, OVER, MOD} \<longrightarrow>
        remaining (snd (factor (match (token s) s))) < remaining s)"
proof -
  have d: "exp_simple_exp_simple_exp_loop_term_rule_term_loop_factor_dom x"
    "stmt_sequence_stmt_sequence_loop_statement_if_stmt_repeat_stmt_while_stmt_dowhile_stmt_for_stmt_dom y"
    using expr_total stmt_total by blast+
  have g: "remaining (getToken u) \<le> length (input u)" for u
    by (auto simp: remaining_def getToken_def split: list.splits)
  have f: "remaining (getToken (fresh src)) \<le> length src"
    using g[of "fresh src"] by (simp add: fresh_def)
  have p: "remaining (snd (parse s)) \<le> length (input s)"
  proof -
    have "remaining (snd (parse s)) = remaining (snd (stmt_sequence (getToken s)))"
      by (simp add: parse_def Let_def case_prod_beta)
    then show ?thesis using remaining_stmt(1)[of "getToken s"] g[of s] by simp
  qed
  have k: "token s \<noteq> ENDFILE \<longrightarrow>
        remaining (getToken (printToken (syntaxError ''unexpected token -> '' s))) < remaining s"
    using remaining_getToken_less[of "printToken (syntaxError ''unexpected token -> '' s)"]
    by simp
  show ?thesis
    using d f p k remaining_match[of e s] remaining_match_less[of s e]
      remaining_exp[of s] remaining_simple_exp[of s] remaining_expr(2,4)[of s]
      remaining_stmt(1,3)[of s] remaining_stmt(4)[of s] loop_progress[of s]
    by (intro conjI impI) simp_all
qed

theorem parse_terminates_witness:
  "token at_semi = SEMI \<and> \<not> terminator (token at_semi)
   \<and> token at_plus = PLUS \<and> token at_times = TIMES
   \<and> remaining at_semi = 4
   \<and> remaining (match SEMI at_semi) = 3
   \<and> remaining (snd (statement at_semi)) = 3
   \<and> remaining (snd (statement (match SEMI at_semi))) = 2
   \<and> remaining at_plus = 2
   \<and> remaining (snd (term_rule (match (token at_plus) at_plus))) = 0
   \<and> remaining at_times = 1
   \<and> remaining (snd (factor (match (token at_times) at_times))) = 0"
  using parse_terminates[of "Inl (Inl at_semi)" "Inl (Inl (Inl at_semi))" "[]" at_semi SEMI]
    parse_terminates[of "Inl (Inl at_plus)" "Inl (Inl (Inl at_plus))" "[]" at_plus PLUS]
    parse_terminates[of "Inl (Inl at_times)" "Inl (Inl (Inl at_times))" "[]" at_times TIMES]
  by (simp add: at_semi_def at_plus_def at_times_def remaining_def terminator_def
      eval_stmt_rules)


section \<open>Two runs on the same tokens\<close>

lemma core_token: "core a = core b \<Longrightarrow> token a = token b"
  by (simp add: core_def)

lemma core_tokenString: "core a = core b \<Longrightarrow> tokenString a = tokenString b"
  by (simp add: core_def)

lemma core_getToken: "core a = core b \<Longrightarrow> core (getToken a) = core (getToken b)"
  by (auto simp: core_def getToken_def split: list.splits)

lemma core_unexpected:
  "core a = core b \<Longrightarrow>
   core (printToken (syntaxError m a)) = core (printToken (syntaxError m b))"
  by (simp add: core_def printToken_def syntaxError_def)

lemma core_match: "core a = core b \<Longrightarrow> core (match e a) = core (match e b)"
  using core_getToken[of a b] core_unexpected[of a b] core_token[of a b]
  by (simp add: match_def)

lemma core_skip:
  "core a = core b \<Longrightarrow>
   core (getToken (printToken (syntaxError m a))) = core (getToken (printToken (syntaxError m b)))"
  by (intro core_getToken core_unexpected)

lemma expr_core:
  shows "core s' = core s \<Longrightarrow> fst (exp s') = fst (exp s) \<and> core (snd (exp s')) = core (snd (exp s))"
    and "core s' = core s \<Longrightarrow>
         fst (simple_exp s') = fst (simple_exp s)
         \<and> core (snd (simple_exp s')) = core (snd (simple_exp s))"
    and "core s' = core s \<Longrightarrow>
         fst (simple_exp_loop t s') = fst (simple_exp_loop t s)
         \<and> core (snd (simple_exp_loop t s')) = core (snd (simple_exp_loop t s))"
    and "core s' = core s \<Longrightarrow>
         fst (term_rule s') = fst (term_rule s)
         \<and> core (snd (term_rule s')) = core (snd (term_rule s))"
    and "core s' = core s \<Longrightarrow>
         fst (term_loop t s') = fst (term_loop t s)
         \<and> core (snd (term_loop t s')) = core (snd (term_loop t s))"
    and "core s' = core s \<Longrightarrow>
         fst (factor s') = fst (factor s) \<and> core (snd (factor s')) = core (snd (factor s))"
proof (induct s and s and t s and s and t s and s
    arbitrary: s' and s' and s' and s' and s' and s'
    rule: exp_simple_exp_simple_exp_loop_term_rule_term_loop_factor.induct)
  case (1 s)
  obtain t s1 where a: "simple_exp s = (t, s1)" by (cases "simple_exp s")
  obtain t' s1' where a': "simple_exp s' = (t', s1')" by (cases "simple_exp s'")
  have e1: "t' = t" "core s1' = core s1" using 1(1)[OF 1(3)] a a' by simp_all
  have tk: "token s1' = token s1" using e1(2) by (rule core_token)
  show ?case
  proof (cases "token s1 = LT \<or> token s1 = EQ \<or> token s1 = GT")
    case True
    obtain r s3 where b: "simple_exp (getToken s1) = (r, s3)"
      by (cases "simple_exp (getToken s1)")
    obtain r' s3' where b': "simple_exp (getToken s1') = (r', s3')"
      by (cases "simple_exp (getToken s1')")
    have "fst (simple_exp (getToken s1')) = fst (simple_exp (match (token s1) s1))
        \<and> core (snd (simple_exp (getToken s1'))) = core (snd (simple_exp (match (token s1) s1)))"
      by (rule 1(2)[OF refl a[symmetric] True refl refl])
        (use core_getToken[OF e1(2)] in simp)
    then have "r' = r" "core s3' = core s3" using b b' by simp_all
    then show ?thesis
      using exp_rel[OF a True b] exp_rel[OF a' _ b'] True tk e1 by simp
  next
    case False
    then show ?thesis
      using exp_no_rel[OF a] exp_no_rel[OF a'] tk e1 by simp
  qed
next
  case (2 s)
  obtain t s1 where a: "term_rule s = (t, s1)" by (cases "term_rule s")
  obtain t' s1' where a': "term_rule s' = (t', s1')" by (cases "term_rule s'")
  have e1: "t' = t" "core s1' = core s1" using 2(1)[OF 2(3)] a a' by simp_all
  show ?case using 2(2)[OF refl a[symmetric] e1(2)] a a' e1(1) by (simp add: simple_exp.simps)
next
  case (3 t s)
  have tk: "token s' = token s" using 3(3) by (rule core_token)
  show ?case
  proof (cases "token s = PLUS \<or> token s = MINUS")
    case True
    obtain r s2 where b: "term_rule (getToken s) = (r, s2)" by (cases "term_rule (getToken s)")
    obtain r' s2' where b': "term_rule (getToken s') = (r', s2')"
      by (cases "term_rule (getToken s')")
    have "fst (term_rule (getToken s')) = fst (term_rule (match (token s) s))
        \<and> core (snd (term_rule (getToken s'))) = core (snd (term_rule (match (token s) s)))"
      by (rule 3(1)[OF True refl refl]) (use core_getToken[OF 3(3)] in simp)
    then have e: "r' = r" "core s2' = core s2" using b b' by simp_all
    have b2: "(r, s2) = term_rule (match (token s) s)" using b by simp
    show ?thesis
      using 3(2)[OF True refl refl refl b2 e(2)]
        simple_exp_loop_step[OF True b, of t] simple_exp_loop_step[OF _ b', of t] True tk e(1)
      by (simp add: op_node_built)
  next
    case False
    then show ?thesis using tk 3(3) by (simp add: simple_exp_loop_stop)
  qed
next
  case (4 s)
  obtain t s1 where a: "factor s = (t, s1)" by (cases "factor s")
  obtain t' s1' where a': "factor s' = (t', s1')" by (cases "factor s'")
  have e1: "t' = t" "core s1' = core s1" using 4(1)[OF 4(3)] a a' by simp_all
  show ?case using 4(2)[OF refl a[symmetric] e1(2)] a a' e1(1) by (simp add: term_rule.simps)
next
  case (5 t s)
  have tk: "token s' = token s" using 5(3) by (rule core_token)
  show ?case
  proof (cases "token s = TIMES \<or> token s = OVER \<or> token s = MOD")
    case True
    obtain r s2 where b: "factor (getToken s) = (r, s2)" by (cases "factor (getToken s)")
    obtain r' s2' where b': "factor (getToken s') = (r', s2')"
      by (cases "factor (getToken s')")
    have "fst (factor (getToken s')) = fst (factor (match (token s) s))
        \<and> core (snd (factor (getToken s'))) = core (snd (factor (match (token s) s)))"
      by (rule 5(1)[OF True refl refl]) (use core_getToken[OF 5(3)] in simp)
    then have e: "r' = r" "core s2' = core s2" using b b' by simp_all
    have b2: "(r, s2) = factor (match (token s) s)" using b by simp
    show ?thesis
      using 5(2)[OF True refl refl refl b2 e(2)]
        term_loop_step[OF True b, of t] term_loop_step[OF _ b', of t] True tk e(1)
      by (simp add: op_node_built)
  next
    case False
    then show ?thesis using tk 5(3) by (simp add: term_loop_stop)
  qed
next
  case (6 s)
  have tk: "token s' = token s" using 6(2) by (rule core_token)
  have ts: "tokenString s' = tokenString s" using 6(2) by (rule core_tokenString)
  consider (num) "token s = NUM" | (id) "token s \<noteq> NUM" "token s = ID"
    | (paren) "token s \<noteq> NUM" "token s \<noteq> ID" "token s = LPAREN"
    | (other) "token s \<noteq> NUM" "token s \<noteq> ID" "token s \<noteq> LPAREN"
    by blast
  then show ?case
  proof cases
    case num
    then show ?thesis using tk ts core_match[OF 6(2)] by (simp add: factor.simps)
  next
    case id
    then show ?thesis using tk ts core_match[OF 6(2)] by (simp add: factor.simps)
  next
    case paren
    have "fst (exp (match LPAREN s')) = fst (exp (match LPAREN s))
        \<and> core (snd (exp (match LPAREN s'))) = core (snd (exp (match LPAREN s)))"
      by (rule 6(1)[OF paren refl]) (rule core_match[OF 6(2)])
    then show ?thesis
      using paren tk
        core_match[of "snd (exp (match LPAREN s'))" "snd (exp (match LPAREN s))" RPAREN]
      by (simp add: factor.simps case_prod_beta Let_def)
  next
    case other
    then show ?thesis using tk core_skip[OF 6(2)] by (simp add: factor.simps)
  qed
qed

lemma same_runD:
  "same_run f a b \<Longrightarrow> f a = (t, a') \<Longrightarrow> f b = (u, b') \<Longrightarrow> t = u \<and> core a' = core b'"
  by (simp add: same_run_def)

lemma same_run_exp: "core a = core b \<Longrightarrow> same_run exp a b"
  using expr_core(1)[of a b] by (simp add: same_run_def)

lemma same_run_simple_exp: "core a = core b \<Longrightarrow> same_run simple_exp a b"
  using expr_core(2)[of a b] by (simp add: same_run_def)

lemma core_name_at: "core a = core b \<Longrightarrow> name_at a = name_at b"
  by (simp add: core_def name_at_def)

lemma core_after_direction:
  "core a = core b \<Longrightarrow> core (after_direction a) = core (after_direction b)"
proof -
  assume c: "core a = core b"
  let ?a5 = "if token a = TO then match TO a else a"
  let ?b5 = "if token b = TO then match TO b else b"
  have 5: "core ?a5 = core ?b5" using c core_match[OF c, of TO] core_token[OF c] by simp
  show ?thesis
    using 5 core_match[OF 5, of DOWNTO] core_token[OF 5]
    by (simp add: after_direction_def Let_def)
qed

lemma same_run_assign: "core a = core b \<Longrightarrow> same_run assign_stmt a b"
proof -
  assume c: "core a = core b"
  obtain c0 s3 where x: "exp (match ASSIGN (match ID a)) = (c0, s3)"
    by (cases "exp (match ASSIGN (match ID a))")
  obtain d0 u3 where y: "exp (match ASSIGN (match ID b)) = (d0, u3)"
    by (cases "exp (match ASSIGN (match ID b))")
  have "core (match ASSIGN (match ID a)) = core (match ASSIGN (match ID b))"
    by (intro core_match c)
  from same_runD[OF same_run_exp[OF this] x y] show ?thesis
    using core_name_at[OF c] by (simp add: same_run_def assign_stmt_unfold[OF x]
        assign_stmt_unfold[OF y])
qed

lemma same_run_read: "core a = core b \<Longrightarrow> same_run read_stmt a b"
proof -
  assume c: "core a = core b"
  have 1: "core (match READ a) = core (match READ b)" by (intro core_match c)
  have "core (match ID (match READ a)) = core (match ID (match READ b))"
    by (intro core_match c)
  then show ?thesis
    using core_name_at[OF 1] by (simp add: same_run_def read_stmt_unfold)
qed

lemma same_run_write: "core a = core b \<Longrightarrow> same_run write_stmt a b"
proof -
  assume c: "core a = core b"
  obtain c0 s3 where x: "exp (match WRITE a) = (c0, s3)" by (cases "exp (match WRITE a)")
  obtain d0 u3 where y: "exp (match WRITE b) = (d0, u3)" by (cases "exp (match WRITE b)")
  have "core (match WRITE a) = core (match WRITE b)" by (intro core_match c)
  from same_runD[OF same_run_exp[OF this] x y] show ?thesis
    by (simp add: same_run_def write_stmt_unfold[OF x] write_stmt_unfold[OF y])
qed

lemma terminator_core: "core a = core b \<Longrightarrow> terminator (token a) = terminator (token b)"
  by (simp add: core_def)

lemma stmt_core:
  shows "core s' = core s \<Longrightarrow> same_run stmt_sequence s' s"
    and "core s' = core s \<Longrightarrow> same_run (stmt_sequence_loop t) s' s"
    and "core s' = core s \<Longrightarrow> same_run statement s' s"
    and "core s' = core s \<Longrightarrow> same_run if_stmt s' s"
    and "core s' = core s \<Longrightarrow> same_run repeat_stmt s' s"
    and "core s' = core s \<Longrightarrow> same_run while_stmt s' s"
    and "core s' = core s \<Longrightarrow> same_run dowhile_stmt s' s"
    and "core s' = core s \<Longrightarrow> same_run for_stmt s' s"
proof (induct s and t s and s and s and s and s and s and s
    arbitrary: s' and s' and s' and s' and s' and s' and s' and s'
    rule: stmt_sequence_stmt_sequence_loop_statement_if_stmt_repeat_stmt_while_stmt_dowhile_stmt_for_stmt.induct)
  case (1 s)
  obtain t s1 where a: "statement s = (t, s1)" by (cases "statement s")
  obtain t' s1' where a': "statement s' = (t', s1')" by (cases "statement s'")
  have e: "t' = t" "core s1' = core s1" using same_runD[OF 1(1)[OF 1(3)] a' a] by simp_all
  show ?case
    using 1(2)[OF refl a[symmetric] e(2)] e(1)
    by (simp add: same_run_def stmt_sequence_unfold[OF a] stmt_sequence_unfold[OF a'])
next
  case (2 t s)
  have tm: "terminator (token s') = terminator (token s)" using 2(3) by (rule terminator_core)
  show ?case
  proof (cases "terminator (token s)")
    case True
    then show ?thesis using tm 2(3) by (simp add: same_run_def stmt_sequence_loop_stop)
  next
    case False
    then have g: "token s \<noteq> ENDFILE \<and> token s \<noteq> END \<and> token s \<noteq> ELSE \<and> token s \<noteq> UNTIL
           \<and> token s \<noteq> WHILE \<and> token s \<noteq> ENDWHILE \<and> token s \<noteq> ENDDO"
      by (simp add: terminator_def)
    obtain q s2 where b: "statement (match SEMI s) = (q, s2)"
      by (cases "statement (match SEMI s)")
    obtain q' s2' where b': "statement (match SEMI s') = (q', s2')"
      by (cases "statement (match SEMI s')")
    have "same_run statement (match SEMI s') (match SEMI s)"
      by (rule 2(1)[OF g refl]) (rule core_match[OF 2(3)])
    from same_runD[OF this b' b] have e: "q' = q" "core s2' = core s2" by simp_all
    show ?thesis
      using 2(2)[OF g refl refl b[symmetric] e(2)] e(1) False tm
      by (simp add: same_run_def stmt_sequence_loop_step[OF _ b]
          stmt_sequence_loop_step[OF _ b'])
  qed
next
  case (3 s)
  have tk: "token s' = token s" using 3(6) by (rule core_token)
  show ?case
    using 3(1-5)[where s' = s'] 3(6) same_run_assign[OF 3(6)] same_run_read[OF 3(6)]
      same_run_write[OF 3(6)] core_skip[OF 3(6), of "''unexpected token -> ''"] tk
    by (simp add: same_run_def statement_unfold)
next
  case (4 s)
  let ?a = "match LPAREN (match IF s)" and ?b = "match LPAREN (match IF s')"
  obtain c0 s3 where x: "exp ?a = (c0, s3)" by (cases "exp ?a")
  obtain d0 u3 where y: "exp ?b = (d0, u3)" by (cases "exp ?b")
  have "core ?b = core ?a" by (intro core_match 4(3))
  from same_runD[OF same_run_exp[OF this] y x] have e0: "d0 = c0" "core u3 = core s3"
    by simp_all
  let ?a5 = "match THEN_TOK (match RPAREN s3)" and ?b5 = "match THEN_TOK (match RPAREN u3)"
  have c5: "core ?b5 = core ?a5" by (intro core_match e0(2))
  obtain c1 s6 where x1: "stmt_sequence ?a5 = (c1, s6)" by (cases "stmt_sequence ?a5")
  obtain d1 u6 where y1: "stmt_sequence ?b5 = (d1, u6)" by (cases "stmt_sequence ?b5")
  have e1: "d1 = c1" "core u6 = core s6"
    using same_runD[OF 4(1)[OF refl refl refl refl x[symmetric] refl refl refl c5] y1 x1]
    by simp_all
  have tk: "token u6 = token s6" using e1(2) by (rule core_token)
  obtain c2 s8 where x2: "stmt_sequence (match ELSE s6) = (c2, s8)"
    by (cases "stmt_sequence (match ELSE s6)")
  obtain d2 u8 where y2: "stmt_sequence (match ELSE u6) = (d2, u8)"
    by (cases "stmt_sequence (match ELSE u6)")
  show ?case
  proof (cases "token s6 = ELSE")
    case True
    have "core (match ELSE u6) = core (match ELSE s6)" by (intro core_match e1(2))
    from same_runD[OF 4(2)[OF refl refl refl refl x[symmetric] refl refl refl refl
          x1[symmetric] refl True refl this] y2 x2]
    have e2: "d2 = c2" "core u8 = core s8" by simp_all
    show ?thesis
      using True tk e0 e1 e2 core_match[OF e2(2), of END]
      by (simp add: same_run_def if_stmt_unfold[OF x x1 x2] if_stmt_unfold[OF y y1 y2])
  next
    case False
    then show ?thesis
      using tk e0 e1 core_match[OF e1(2), of END]
      by (simp add: same_run_def if_stmt_unfold[OF x x1 x2] if_stmt_unfold[OF y y1 y2])
  qed
next
  case (5 s)
  obtain c0 s2 where x: "stmt_sequence (match REPEAT s) = (c0, s2)"
    by (cases "stmt_sequence (match REPEAT s)")
  obtain d0 u2 where y: "stmt_sequence (match REPEAT s') = (d0, u2)"
    by (cases "stmt_sequence (match REPEAT s')")
  have "core (match REPEAT s') = core (match REPEAT s)" by (intro core_match 5(2))
  from same_runD[OF 5(1)[OF refl refl this] y x] have e0: "d0 = c0" "core u2 = core s2"
    by simp_all
  obtain c1 s4 where x1: "exp (match UNTIL s2) = (c1, s4)" by (cases "exp (match UNTIL s2)")
  obtain d1 u4 where y1: "exp (match UNTIL u2) = (d1, u4)" by (cases "exp (match UNTIL u2)")
  have "core (match UNTIL u2) = core (match UNTIL s2)" by (intro core_match e0(2))
  from same_runD[OF same_run_exp[OF this] y1 x1] have e1: "d1 = c1" "core u4 = core s4"
    by simp_all
  show ?case
    using e0 e1
    by (simp add: same_run_def repeat_stmt_unfold[OF x x1] repeat_stmt_unfold[OF y y1])
next
  case (6 s)
  obtain c0 s2 where x: "exp (match WHILE s) = (c0, s2)" by (cases "exp (match WHILE s)")
  obtain d0 u2 where y: "exp (match WHILE s') = (d0, u2)" by (cases "exp (match WHILE s')")
  have "core (match WHILE s') = core (match WHILE s)" by (intro core_match 6(2))
  from same_runD[OF same_run_exp[OF this] y x] have e0: "d0 = c0" "core u2 = core s2"
    by simp_all
  obtain c1 s4 where x1: "stmt_sequence (match DO s2) = (c1, s4)"
    by (cases "stmt_sequence (match DO s2)")
  obtain d1 u4 where y1: "stmt_sequence (match DO u2) = (d1, u4)"
    by (cases "stmt_sequence (match DO u2)")
  have "core (match DO u2) = core (match DO s2)" by (intro core_match e0(2))
  from same_runD[OF 6(1)[OF refl refl refl x[symmetric] refl refl this] y1 x1]
  have e1: "d1 = c1" "core u4 = core s4" by simp_all
  show ?case
    using e0 e1 core_match[OF e1(2), of ENDWHILE]
    by (simp add: same_run_def while_stmt_unfold[OF x x1] while_stmt_unfold[OF y y1])
next
  case (7 s)
  obtain c0 s2 where x: "stmt_sequence (match DO s) = (c0, s2)"
    by (cases "stmt_sequence (match DO s)")
  obtain d0 u2 where y: "stmt_sequence (match DO s') = (d0, u2)"
    by (cases "stmt_sequence (match DO s')")
  have "core (match DO s') = core (match DO s)" by (intro core_match 7(2))
  from same_runD[OF 7(1)[OF refl refl this] y x] have e0: "d0 = c0" "core u2 = core s2"
    by simp_all
  let ?a = "match LPAREN (match WHILE s2)" and ?b = "match LPAREN (match WHILE u2)"
  obtain c1 s5 where x1: "exp ?a = (c1, s5)" by (cases "exp ?a")
  obtain d1 u5 where y1: "exp ?b = (d1, u5)" by (cases "exp ?b")
  have "core ?b = core ?a" by (intro core_match e0(2))
  from same_runD[OF same_run_exp[OF this] y1 x1] have e1: "d1 = c1" "core u5 = core s5"
    by simp_all
  show ?case
    using e0 e1 core_match[OF e1(2), of RPAREN]
    by (simp add: same_run_def dowhile_stmt_unfold[OF x x1] dowhile_stmt_unfold[OF y y1])
next
  case (8 s)
  let ?a = "match ASSIGN (match ID (match FOR s))"
  let ?b = "match ASSIGN (match ID (match FOR s'))"
  obtain c0 s4 where x: "simple_exp ?a = (c0, s4)" by (cases "simple_exp ?a")
  obtain d0 u4 where y: "simple_exp ?b = (d0, u4)" by (cases "simple_exp ?b")
  have "core ?b = core ?a" by (intro core_match 8(2))
  from same_runD[OF same_run_simple_exp[OF this] y x] have e0: "d0 = c0" "core u4 = core s4"
    by simp_all
  obtain c1 s7 where x1: "simple_exp (after_direction s4) = (c1, s7)"
    by (cases "simple_exp (after_direction s4)")
  obtain d1 u7 where y1: "simple_exp (after_direction u4) = (d1, u7)"
    by (cases "simple_exp (after_direction u4)")
  have "core (after_direction u4) = core (after_direction s4)"
    by (rule core_after_direction[OF e0(2)])
  from same_runD[OF same_run_simple_exp[OF this] y1 x1]
  have e1: "d1 = c1" "core u7 = core s7" by simp_all
  obtain c2 s9 where x2: "stmt_sequence (match DO s7) = (c2, s9)"
    by (cases "stmt_sequence (match DO s7)")
  obtain d2 u9 where y2: "stmt_sequence (match DO u7) = (d2, u9)"
    by (cases "stmt_sequence (match DO u7)")
  have x1': "(c1, s7) = simple_exp (if token (if token s4 = TO then match TO s4 else s4) = DOWNTO
       then match DOWNTO (if token s4 = TO then match TO s4 else s4)
       else if token s4 = TO then match TO s4 else s4)"
    using x1 by (simp add: after_direction_def Let_def)
  have "core (match DO u7) = core (match DO s7)" by (intro core_match e1(2))
  from same_runD[OF 8(1)[OF refl refl refl refl refl refl x[symmetric] refl refl refl refl
        x1' refl refl this] y2 x2]
  have e2: "d2 = c2" "core u9 = core s9" by simp_all
  have n: "name_at (match FOR s') = name_at (match FOR s)"
    by (intro core_name_at core_match 8(2))
  show ?case
    using e0 e1 e2 n core_match[OF e2(2), of ENDDO]
    by (simp add: same_run_def for_stmt_unfold[OF x x1 x2] for_stmt_unfold[OF y y1 y2])
qed

text \<open>
  C9. Two runs of \<^verbatim>\<open>parse\<close> from states that hold the same token sequence and the
  same flag, whatever the lookahead variable and the listing hold, return equal trees
  and end with the same flag and the same cursor. (Trees are values here: equality is
  equality of variant, attribute, children and siblings at every position.)
\<close>

theorem parse_deterministic:
  "input a = input b \<and> Error a = Error b \<longrightarrow>
   fst (parse a) = fst (parse b) \<and> Error (snd (parse a)) = Error (snd (parse b))
   \<and> cursor (snd (parse a)) = cursor (snd (parse b))"
proof
  assume h: "input a = input b \<and> Error a = Error b"
  then have c: "core (getToken a) = core (getToken b)"
    by (auto simp: core_def getToken_def split: list.splits)
  obtain t a1 where x: "stmt_sequence (getToken a) = (t, a1)"
    by (cases "stmt_sequence (getToken a)")
  obtain u b1 where y: "stmt_sequence (getToken b) = (u, b1)"
    by (cases "stmt_sequence (getToken b)")
  have e: "t = u" "core a1 = core b1" using same_runD[OF stmt_core(1)[OF c] x y] by simp_all
  then show "fst (parse a) = fst (parse b) \<and> Error (snd (parse a)) = Error (snd (parse b))
   \<and> cursor (snd (parse a)) = cursor (snd (parse b))"
    using x y by (auto simp: parse_def core_def cursor_def syntaxError_def)
qed

theorem parse_deterministic_witness:
  "input (fresh sample) = input (stale sample) \<and> Error (fresh sample) = Error (stale sample)
   \<and> fresh sample \<noteq> stale sample
   \<and> fst (parse (fresh sample)) = fst (parse (stale sample))
   \<and> Error (snd (parse (fresh sample))) = Error (snd (parse (stale sample)))
   \<and> cursor (snd (parse (fresh sample))) = cursor (snd (parse (stale sample)))"
  using parse_deterministic[of "fresh sample" "stale sample"]
  by (simp add: fresh_def stale_def)


section \<open>A run without error returns a complete tree\<close>

lemma erase_append: "erase (xs @ ys) = erase xs @ erase ys"
  by (simp add: erase_def)

lemma erase_Nil: "erase [] = []"
  by (simp add: erase_def)

lemma consumes_refl: "\<not> Error s \<Longrightarrow> consumes s s []"
  by (simp add: consumes_def erase_Nil)

lemma consumes_trans:
  "consumes a b ys \<Longrightarrow> consumes b c zs \<Longrightarrow> consumes a c (ys @ zs)"
proof -
  assume "consumes a b ys" "consumes b c zs"
  then obtain p q where 1: "\<not> Error a" "\<not> Error c"
    "stream a = p @ stream b" "erase p = ys" "stream b = q @ stream c" "erase q = zs"
    unfolding consumes_def by blast
  have "stream a = (p @ q) @ stream c" "erase (p @ q) = ys @ zs"
    using 1 by (simp_all add: erase_append)
  then show ?thesis using 1(1,2) unfolding consumes_def by blast
qed

lemma consumesD: "consumes a b ys \<Longrightarrow> \<not> Error a \<and> \<not> Error b"
  by (simp add: consumes_def)

lemma stream_getToken:
  "token s \<noteq> ENDFILE \<Longrightarrow> stream s = (token s, tokenString s) # stream (getToken s)"
  by (auto simp: stream_def getToken_def split: list.splits)

lemma Error_getToken [simp]: "Error (getToken s) = Error s"
  by (simp add: getToken_def split: list.splits)

lemma consumes_getToken:
  "\<not> Error s \<Longrightarrow> token s \<noteq> ENDFILE \<Longrightarrow>
   consumes s (getToken s) (erase [(token s, tokenString s)])"
  unfolding consumes_def using stream_getToken[of s] by auto

lemma match_no_Error:
  "\<not> Error (match e s) \<Longrightarrow> token s = e \<and> \<not> Error s \<and> match e s = getToken s"
  by (cases "token s = e") (simp_all add: match_def printToken_def syntaxError_def)

lemma consumes_match:
  "\<not> Error (match e s) \<Longrightarrow> e \<noteq> ENDFILE \<Longrightarrow>
   consumes s (match e s) (erase [(e, tokenString s)])"
  using match_no_Error[of e s] consumes_getToken[of s] by auto

lemma erase_kw:
  "k \<notin> {LPAREN, RPAREN, TO, DOWNTO, ID, NUM} \<Longrightarrow> erase [(k, str)] = [kw k]"
  by (auto simp: erase_def item_of_def kw_def)

lemma erase_erased: "k \<in> {LPAREN, RPAREN, TO, DOWNTO} \<Longrightarrow> erase [(k, str)] = []"
  by (auto simp: erase_def)

lemma erase_ID: "erase [(ID, str)] = [(ID, Name str)]"
  by (simp add: erase_def item_of_def)

lemma erase_NUM: "erase [(NUM, str)] = [(NUM, Val (atoi str))]"
  by (simp add: erase_def item_of_def)

text \<open>The flag is never cleared.\<close>

lemma no_Error_expr:
  shows "\<not> Error (snd (exp s)) \<Longrightarrow> \<not> Error s"
    and "\<not> Error (snd (simple_exp s)) \<Longrightarrow> \<not> Error s"
    and "\<not> Error (snd (simple_exp_loop t s)) \<Longrightarrow> \<not> Error s"
    and "\<not> Error (snd (term_rule s)) \<Longrightarrow> \<not> Error s"
    and "\<not> Error (snd (term_loop t s)) \<Longrightarrow> \<not> Error s"
    and "\<not> Error (snd (factor s)) \<Longrightarrow> \<not> Error s"
  using reports_Error[OF reports_expr(1), of s] reports_Error[OF reports_expr(2), of s]
    reports_Error[OF reports_expr(3), of s t] reports_Error[OF reports_expr(4), of s]
    reports_Error[OF reports_expr(5), of s t] reports_Error[OF reports_expr(6), of s]
  by blast+

lemma no_Error_stmt:
  shows "\<not> Error (snd (stmt_sequence s)) \<Longrightarrow> \<not> Error s"
    and "\<not> Error (snd (stmt_sequence_loop t s)) \<Longrightarrow> \<not> Error s"
    and "\<not> Error (snd (statement s)) \<Longrightarrow> \<not> Error s"
  using reports_Error[OF reports_stmt(1), of s] reports_Error[OF reports_stmt(2), of s t]
    reports_Error[OF reports_stmt(3), of s]
  by blast+

lemma no_Error_match: "\<not> Error (match e s) \<Longrightarrow> \<not> Error s"
  using match_no_Error by blast

text \<open>Yield and completeness of the nodes the rules build.\<close>

lemma yield_op_node:
  "yield (op_node op l r) = yield_opt l @ [kw op] @ yield_opt r"
  by (simp add: op_node_def op_of_def)

lemma complete_op_node:
  "complete (op_node op l r) \<longleftrightarrow> l \<noteq> None \<and> r \<noteq> None \<and> complete_opt l \<and> complete_opt r"
  by (simp add: op_node_def has_op_def)

lemma sibling_op_node [simp]: "sibling (op_node op l r) = None"
  by (simp add: op_node_def)

lemma sibling_stmt_node [simp]: "sibling (stmt_node k a c0 c1 c2) = None"
  by (simp add: stmt_node_def)

lemma yield_link_last: "yield (link_last a b) = yield a @ kw SEMI # yield b"
  by (induct a b rule: link_last.induct) (simp split: option.splits)

lemma complete_link_last: "complete (link_last a b) \<longleftrightarrow> complete a \<and> complete b"
  by (induct a b rule: link_last.induct) (auto split: option.splits)

lemma goodD:
  "good f s \<Longrightarrow> f s = (t, s') \<Longrightarrow> \<not> Error s' \<Longrightarrow>
   \<exists>n. t = Some n \<and> complete n \<and> sibling n = None \<and> consumes s s' (yield n)"
  by (simp add: good_def)

lemma goodI:
  "(\<And>t s'. f s = (t, s') \<Longrightarrow> \<not> Error s' \<Longrightarrow>
      \<exists>n. t = Some n \<and> complete n \<and> sibling n = None \<and> consumes s s' (yield n))
   \<Longrightarrow> good f s"
  by (cases "f s") (simp add: good_def)

lemma good_loopD:
  "good_loop f t s \<Longrightarrow> t = Some n0 \<Longrightarrow> complete n0 \<Longrightarrow> sibling n0 = None \<Longrightarrow>
   f t s = (t', s') \<Longrightarrow> \<not> Error s' \<Longrightarrow>
   \<exists>n ys. t' = Some n \<and> complete n \<and> sibling n = None \<and> consumes s s' ys
        \<and> yield n = yield n0 @ ys"
  by (simp add: good_loop_def)

lemma good_loopI:
  "(\<And>n0 t' s'. t = Some n0 \<Longrightarrow> complete n0 \<Longrightarrow> sibling n0 = None \<Longrightarrow>
      f t s = (t', s') \<Longrightarrow> \<not> Error s' \<Longrightarrow>
      \<exists>n ys. t' = Some n \<and> complete n \<and> sibling n = None \<and> consumes s s' ys
           \<and> yield n = yield n0 @ ys)
   \<Longrightarrow> good_loop f t s"
  unfolding good_loop_def by (metis prod.collapse)

lemma consumes_operator:
  assumes "\<not> Error s" "token s \<in> {PLUS, MINUS, TIMES, OVER, MOD, LT, EQ, GT}"
  shows "consumes s (getToken s) [kw (token s)]"
proof -
  have "token s \<noteq> ENDFILE" using assms(2) by auto
  moreover have "erase [(token s, tokenString s)] = [kw (token s)]"
    using assms(2) by (intro erase_kw) auto
  ultimately show ?thesis using consumes_getToken[OF assms(1)] by simp
qed

lemma expr_good:
  shows "good exp s"
    and "good simple_exp s"
    and "good_loop simple_exp_loop t s"
    and "good term_rule s"
    and "good_loop term_loop t s"
    and "good factor s"
proof (induct s and s and t s and s and t s and s
    rule: exp_simple_exp_simple_exp_loop_term_rule_term_loop_factor.induct)
  case (1 s)
  show ?case
  proof (rule goodI)
    fix t s' assume r: "exp s = (t, s')" and ne: "\<not> Error s'"
    obtain l s1 where a: "simple_exp s = (l, s1)" by (cases "simple_exp s")
    show "\<exists>n. t = Some n \<and> complete n \<and> sibling n = None \<and> consumes s s' (yield n)"
    proof (cases "token s1 = LT \<or> token s1 = EQ \<or> token s1 = GT")
      case True
      obtain r2 s3 where b: "simple_exp (getToken s1) = (r2, s3)"
        by (cases "simple_exp (getToken s1)")
      have res: "t = Some (op_node (token s1) l r2)" "s' = s3"
        using exp_rel[OF a True b] r by simp_all
      have ne1: "\<not> Error s1" using no_Error_expr(2)[of "getToken s1"] b ne res by simp
      obtain ln where l: "l = Some ln" "complete ln" "consumes s s1 (yield ln)"
        using goodD[OF 1(1) a ne1] by blast
      have ne3: "\<not> Error s3" using ne res by simp
      have "good simple_exp (getToken s1)"
        using 1(2)[OF refl a[symmetric] True refl refl] by simp
      from goodD[OF this b ne3]
      obtain rn where rr: "r2 = Some rn" "complete rn" "consumes (getToken s1) s3 (yield rn)"
        by blast
      have "consumes s1 (getToken s1) [kw (token s1)]"
        using True ne1 by (intro consumes_operator) auto
      then have "consumes s s3 (yield ln @ [kw (token s1)] @ yield rn)"
        using l(3) rr(3) consumes_trans by blast
      then show ?thesis
        using res l rr by (simp add: yield_op_node complete_op_node)
    next
      case False
      then have "t = l" "s' = s1" using exp_no_rel[OF a] r by simp_all
      then show ?thesis using goodD[OF 1(1) a] ne by simp
    qed
  qed
next
  case (2 s)
  show ?case
  proof (rule goodI)
    fix t s' assume r: "simple_exp s = (t, s')" and ne: "\<not> Error s'"
    obtain l s1 where a: "term_rule s = (l, s1)" by (cases "term_rule s")
    have r': "simple_exp_loop l s1 = (t, s')" using r a by (simp add: simple_exp.simps)
    have ne1: "\<not> Error s1" using no_Error_expr(3)[of l s1] r' ne by simp
    obtain ln where l: "l = Some ln" "complete ln" "sibling ln = None" "consumes s s1 (yield ln)"
      using goodD[OF 2(1) a ne1] by blast
    obtain n ys where "t = Some n" "complete n" "sibling n = None" "consumes s1 s' ys"
      "yield n = yield ln @ ys"
      using good_loopD[OF 2(2)[OF refl a[symmetric]] l(1,2,3) r' ne] by blast
    then show "\<exists>n. t = Some n \<and> complete n \<and> sibling n = None \<and> consumes s s' (yield n)"
      using consumes_trans[OF l(4)] by auto
  qed
next
  case (3 t s)
  show ?case
  proof (rule good_loopI)
    fix n0 t' s'
    assume t: "t = Some n0" "complete n0" "sibling n0 = None"
      and r: "simple_exp_loop t s = (t', s')" and ne: "\<not> Error s'"
    show "\<exists>n ys. t' = Some n \<and> complete n \<and> sibling n = None \<and> consumes s s' ys
           \<and> yield n = yield n0 @ ys"
    proof (cases "token s = PLUS \<or> token s = MINUS")
      case True
      obtain r2 s2 where b: "term_rule (getToken s) = (r2, s2)"
        by (cases "term_rule (getToken s)")
      let ?acc = "Some (op_node (token s) t r2)"
      have r': "simple_exp_loop ?acc s2 = (t', s')"
        using simple_exp_loop_step[OF True b, of t] r by simp
      have ne2: "\<not> Error s2" using no_Error_expr(3)[of ?acc s2] r' ne by simp
      have nes: "\<not> Error s" using no_Error_expr(4)[of "getToken s"] b ne2 by simp
      have "good term_rule (getToken s)" using 3(1)[OF True refl refl] by simp
      from goodD[OF this b ne2]
      obtain rn where rr: "r2 = Some rn" "complete rn" "consumes (getToken s) s2 (yield rn)"
        by blast
      have b2: "(r2, s2) = term_rule (match (token s) s)" using b by simp
      have ca: "complete (op_node (token s) t r2)"
        using t rr by (simp add: complete_op_node)
      have "good_loop simple_exp_loop ?acc s2"
        using 3(2)[OF True refl refl refl b2] by (simp add: op_node_built)
      from good_loopD[OF this refl ca sibling_op_node r' ne]
      obtain n ys where n: "t' = Some n" "complete n" "sibling n = None"
        "consumes s2 s' ys" "yield n = yield (op_node (token s) t r2) @ ys"
        by blast
      have "consumes s (getToken s) [kw (token s)]"
        using True nes by (intro consumes_operator) auto
      then have "consumes s s' ([kw (token s)] @ yield rn @ ys)"
        using rr(3) n(4) consumes_trans by blast
      then show ?thesis using n t rr by (auto simp: yield_op_node)
    next
      case False
      then have "t' = t" "s' = s" using r by (simp_all add: simple_exp_loop_stop)
      then show ?thesis
        using t ne consumes_refl[of s] by auto
    qed
  qed
next
  case (4 s)
  show ?case
  proof (rule goodI)
    fix t s' assume r: "term_rule s = (t, s')" and ne: "\<not> Error s'"
    obtain l s1 where a: "factor s = (l, s1)" by (cases "factor s")
    have r': "term_loop l s1 = (t, s')" using r a by (simp add: term_rule.simps)
    have ne1: "\<not> Error s1" using no_Error_expr(5)[of l s1] r' ne by simp
    obtain ln where l: "l = Some ln" "complete ln" "sibling ln = None" "consumes s s1 (yield ln)"
      using goodD[OF 4(1) a ne1] by blast
    obtain n ys where "t = Some n" "complete n" "sibling n = None" "consumes s1 s' ys"
      "yield n = yield ln @ ys"
      using good_loopD[OF 4(2)[OF refl a[symmetric]] l(1,2,3) r' ne] by blast
    then show "\<exists>n. t = Some n \<and> complete n \<and> sibling n = None \<and> consumes s s' (yield n)"
      using consumes_trans[OF l(4)] by auto
  qed
next
  case (5 t s)
  show ?case
  proof (rule good_loopI)
    fix n0 t' s'
    assume t: "t = Some n0" "complete n0" "sibling n0 = None"
      and r: "term_loop t s = (t', s')" and ne: "\<not> Error s'"
    show "\<exists>n ys. t' = Some n \<and> complete n \<and> sibling n = None \<and> consumes s s' ys
           \<and> yield n = yield n0 @ ys"
    proof (cases "token s = TIMES \<or> token s = OVER \<or> token s = MOD")
      case True
      obtain r2 s2 where b: "factor (getToken s) = (r2, s2)"
        by (cases "factor (getToken s)")
      let ?acc = "Some (op_node (token s) t r2)"
      have r': "term_loop ?acc s2 = (t', s')"
        using term_loop_step[OF True b, of t] r by simp
      have ne2: "\<not> Error s2" using no_Error_expr(5)[of ?acc s2] r' ne by simp
      have nes: "\<not> Error s" using no_Error_expr(6)[of "getToken s"] b ne2 by simp
      have "good factor (getToken s)" using 5(1)[OF True refl refl] by simp
      from goodD[OF this b ne2]
      obtain rn where rr: "r2 = Some rn" "complete rn" "consumes (getToken s) s2 (yield rn)"
        by blast
      have b2: "(r2, s2) = factor (match (token s) s)" using b by simp
      have ca: "complete (op_node (token s) t r2)"
        using t rr by (simp add: complete_op_node)
      have "good_loop term_loop ?acc s2"
        using 5(2)[OF True refl refl refl b2] by (simp add: op_node_built)
      from good_loopD[OF this refl ca sibling_op_node r' ne]
      obtain n ys where n: "t' = Some n" "complete n" "sibling n = None"
        "consumes s2 s' ys" "yield n = yield (op_node (token s) t r2) @ ys"
        by blast
      have "consumes s (getToken s) [kw (token s)]"
        using True nes by (intro consumes_operator) auto
      then have "consumes s s' ([kw (token s)] @ yield rn @ ys)"
        using rr(3) n(4) consumes_trans by blast
      then show ?thesis using n t rr by (auto simp: yield_op_node)
    next
      case False
      then have "t' = t" "s' = s" using r by (simp_all add: term_loop_stop)
      then show ?thesis
        using t ne consumes_refl[of s] by auto
    qed
  qed
next
  case (6 s)
  show ?case
  proof (rule goodI)
    fix t s' assume r: "factor s = (t, s')" and ne: "\<not> Error s'"
    consider (num) "token s = NUM" | (id) "token s \<noteq> NUM" "token s = ID"
      | (paren) "token s \<noteq> NUM" "token s \<noteq> ID" "token s = LPAREN"
      | (other) "token s \<noteq> NUM" "token s \<noteq> ID" "token s \<noteq> LPAREN"
      by blast
    then show "\<exists>n. t = Some n \<and> complete n \<and> sibling n = None \<and> consumes s s' (yield n)"
    proof cases
      case num
      then have res: "t = Some (TreeNode None None None None (ExpK ConstK) (Val (atoi (tokenString s))))"
        "s' = getToken s"
        using r by (simp_all add: factor_unfold)
      have "consumes s s' [(NUM, Val (atoi (tokenString s)))]"
        using consumes_getToken[of s] num ne res by (simp add: erase_NUM)
      then show ?thesis using res by (simp add: has_val_def)
    next
      case id
      then have res: "t = Some (TreeNode None None None None (ExpK IdK) (Name (tokenString s)))"
        "s' = getToken s"
        using r by (simp_all add: factor_unfold)
      have "consumes s s' [(ID, Name (tokenString s))]"
        using consumes_getToken[of s] id ne res by (simp add: erase_ID)
      then show ?thesis using res by (simp add: has_name_def)
    next
      case paren
      obtain e s2 where b: "exp (getToken s) = (e, s2)" by (cases "exp (getToken s)")
      have res: "t = e" "s' = match RPAREN s2" using r paren b by (simp_all add: factor_unfold)
      have ne2: "\<not> Error s2" using no_Error_match ne res by blast
      have nes: "\<not> Error s" using no_Error_expr(1)[of "getToken s"] b ne2 by simp
      have "good exp (getToken s)" using 6(1)[OF paren refl] paren by (simp add: match_def)
      from goodD[OF this b ne2]
      obtain n where n: "e = Some n" "complete n" "sibling n = None"
        "consumes (getToken s) s2 (yield n)"
        by blast
      have "consumes s (getToken s) []"
        using consumes_getToken[OF nes] paren by (simp add: erase_erased)
      moreover have "consumes s2 (match RPAREN s2) []"
        using consumes_match[of RPAREN s2] ne res by (simp add: erase_erased)
      ultimately have "consumes s s' ([] @ yield n @ [])"
        using n(4) res consumes_trans by blast
      then show ?thesis using n res by simp
    next
      case other
      then have "Error s'" using r
        by (auto simp: factor_unfold printToken_def syntaxError_def)
      then show ?thesis using ne by simp
    qed
  qed
qed

lemma good_seqD:
  "good_seq s \<Longrightarrow> stmt_sequence s = (t, s') \<Longrightarrow> \<not> Error s' \<Longrightarrow>
   \<exists>n. t = Some n \<and> complete n \<and> consumes s s' (yield n)"
  by (simp add: good_seq_def)

lemma good_seqI:
  "(\<And>t s'. stmt_sequence s = (t, s') \<Longrightarrow> \<not> Error s' \<Longrightarrow>
      \<exists>n. t = Some n \<and> complete n \<and> consumes s s' (yield n))
   \<Longrightarrow> good_seq s"
  unfolding good_seq_def by (metis prod.collapse)

lemma good_seq_loopD:
  "good_seq_loop t s \<Longrightarrow> t = Some n0 \<Longrightarrow> complete n0 \<Longrightarrow>
   stmt_sequence_loop t s = (t', s') \<Longrightarrow> \<not> Error s' \<Longrightarrow>
   \<exists>n ys. t' = Some n \<and> complete n \<and> consumes s s' ys \<and> yield n = yield n0 @ ys"
  by (simp add: good_seq_loop_def)

lemma good_seq_loopI:
  "(\<And>n0 t' s'. t = Some n0 \<Longrightarrow> complete n0 \<Longrightarrow>
      stmt_sequence_loop t s = (t', s') \<Longrightarrow> \<not> Error s' \<Longrightarrow>
      \<exists>n ys. t' = Some n \<and> complete n \<and> consumes s s' ys \<and> yield n = yield n0 @ ys)
   \<Longrightarrow> good_seq_loop t s"
  unfolding good_seq_loop_def by (metis prod.collapse)

lemma consumes_match_kw:
  "\<not> Error (match e s) \<Longrightarrow> e \<notin> {ENDFILE, LPAREN, RPAREN, TO, DOWNTO, ID, NUM} \<Longrightarrow>
   consumes s (match e s) [kw e]"
  using consumes_match[of e s] erase_kw[of e "tokenString s"] by auto

lemma consumes_match_erased:
  "\<not> Error (match e s) \<Longrightarrow> e \<in> {LPAREN, RPAREN, TO, DOWNTO} \<Longrightarrow>
   consumes s (match e s) []"
  using consumes_match[of e s] erase_erased[of e "tokenString s"] by auto

lemma consumes_match_ID:
  "\<not> Error (match ID s) \<Longrightarrow>
   consumes s (match ID s) [(ID, name_at s)] \<and> has_name (name_at s)"
  using consumes_match[of ID s] match_no_Error[of ID s]
  by (simp add: erase_ID name_at_def has_name_def)

lemma consumes_optional:
  assumes "\<not> Error s" "e \<in> {TO, DOWNTO}"
  shows "consumes s (if token s = e then match e s else s) []"
proof (cases "token s = e")
  case True
  then have "\<not> Error (match e s)" using assms(1) by (simp add: match_def)
  then show ?thesis using True consumes_match_erased[of e s] assms(2) by auto
next
  case False
  then show ?thesis using consumes_refl[OF assms(1)] by simp
qed

lemma consumes_after_direction:
  "\<not> Error (after_direction s) \<Longrightarrow> consumes s (after_direction s) []"
proof -
  assume ne: "\<not> Error (after_direction s)"
  let ?s5 = "if token s = TO then match TO s else s"
  have e: "Error (after_direction s) = Error s"
    by (simp add: after_direction_def Let_def match_def)
  then have nes: "\<not> Error s" using ne by simp
  have 1: "consumes s ?s5 []" using consumes_optional[OF nes, of TO] by simp
  have ne5: "\<not> Error ?s5" using 1 consumesD by blast
  have 2: "consumes ?s5 (after_direction s) []"
    using consumes_optional[OF ne5, of DOWNTO] by (simp add: after_direction_def Let_def)
  show ?thesis using consumes_trans[OF 1 2] by simp
qed

lemma no_Error_after_direction: "\<not> Error (after_direction s) \<Longrightarrow> \<not> Error s"
  by (simp add: after_direction_def Let_def match_def split: if_splits)

lemma yield_stmt_node:
  "yield (stmt_node IfK a c0 c1 c2)
     = [kw IF] @ yield_opt c0 @ [kw THEN_TOK] @ yield_opt c1
       @ (case c2 of None \<Rightarrow> [] | Some n \<Rightarrow> kw ELSE # yield n) @ [kw END]"
  "yield (stmt_node RepeatK a c0 c1 c2) = [kw REPEAT] @ yield_opt c0 @ [kw UNTIL] @ yield_opt c1"
  "yield (stmt_node AssignK a c0 c1 c2) = [(ID, a), kw ASSIGN] @ yield_opt c0"
  "yield (stmt_node ReadK a c0 c1 c2) = [kw READ, (ID, a)]"
  "yield (stmt_node WriteK a c0 c1 c2) = [kw WRITE] @ yield_opt c0"
  "yield (stmt_node WhileK a c0 c1 c2)
     = [kw WHILE] @ yield_opt c0 @ [kw DO] @ yield_opt c1 @ [kw ENDWHILE]"
  "yield (stmt_node DoWhileK a c0 c1 c2) = [kw DO] @ yield_opt c0 @ [kw WHILE] @ yield_opt c1"
  "yield (stmt_node ForK a c0 c1 c2)
     = [kw FOR, (ID, a), kw ASSIGN] @ yield_opt c0 @ yield_opt c1 @ [kw DO]
       @ yield_opt c2 @ [kw ENDDO]"
  by (simp_all add: stmt_node_def)

lemma complete_stmt_node:
  "complete (stmt_node IfK a c0 c1 c2)
     \<longleftrightarrow> c0 \<noteq> None \<and> c1 \<noteq> None \<and> complete_opt c0 \<and> complete_opt c1 \<and> complete_opt c2"
  "complete (stmt_node RepeatK a c0 c1 None)
     \<longleftrightarrow> c0 \<noteq> None \<and> c1 \<noteq> None \<and> complete_opt c0 \<and> complete_opt c1"
  "complete (stmt_node AssignK a c0 None None) \<longleftrightarrow> c0 \<noteq> None \<and> has_name a \<and> complete_opt c0"
  "complete (stmt_node ReadK a None None None) \<longleftrightarrow> has_name a"
  "complete (stmt_node WriteK a c0 None None) \<longleftrightarrow> c0 \<noteq> None \<and> complete_opt c0"
  "complete (stmt_node WhileK a c0 c1 None)
     \<longleftrightarrow> c0 \<noteq> None \<and> c1 \<noteq> None \<and> complete_opt c0 \<and> complete_opt c1"
  "complete (stmt_node DoWhileK a c0 c1 None)
     \<longleftrightarrow> c0 \<noteq> None \<and> c1 \<noteq> None \<and> complete_opt c0 \<and> complete_opt c1"
  "complete (stmt_node ForK a c0 c1 c2)
     \<longleftrightarrow> c0 \<noteq> None \<and> c1 \<noteq> None \<and> c2 \<noteq> None \<and> has_name a
         \<and> complete_opt c0 \<and> complete_opt c1 \<and> complete_opt c2"
  by (auto simp: stmt_node_def)

lemma good_assign: "good assign_stmt s"
proof (rule goodI)
  fix t s' assume r: "assign_stmt s = (t, s')" and ne: "\<not> Error s'"
  let ?a = "match ASSIGN (match ID s)"
  obtain c0 s3 where x: "exp ?a = (c0, s3)" by (cases "exp ?a")
  have res: "t = Some (stmt_node AssignK (name_at s) c0 None None)" "s' = s3"
    using assign_stmt_unfold[OF x] r by simp_all
  have ne2: "\<not> Error ?a" using no_Error_expr(1)[of ?a] x ne res by simp
  have ne1: "\<not> Error (match ID s)" using no_Error_match[OF ne2] .
  obtain n0 where n0: "c0 = Some n0" "complete n0" "consumes ?a s3 (yield n0)"
    using goodD[OF expr_good(1) x] ne res by blast
  have "consumes s (match ID s) [(ID, name_at s)]" "has_name (name_at s)"
    using consumes_match_ID[OF ne1] by simp_all
  moreover have "consumes (match ID s) ?a [kw ASSIGN]"
    using ne2 by (intro consumes_match_kw) auto
  ultimately have "consumes s s3 ([(ID, name_at s)] @ [kw ASSIGN] @ yield n0)"
    "has_name (name_at s)"
    using n0(3) consumes_trans by blast+
  then show "\<exists>n. t = Some n \<and> complete n \<and> sibling n = None \<and> consumes s s' (yield n)"
    using res n0 by (simp add: yield_stmt_node complete_stmt_node)
qed

lemma good_read: "good read_stmt s"
proof (rule goodI)
  fix t s' assume r: "read_stmt s = (t, s')" and ne: "\<not> Error s'"
  have res: "t = Some (stmt_node ReadK (name_at (match READ s)) None None None)"
    "s' = match ID (match READ s)"
    using read_stmt_unfold[of s] r by simp_all
  have ne1: "\<not> Error (match READ s)" using no_Error_match ne res by blast
  have "consumes s (match READ s) [kw READ]"
    using ne1 by (intro consumes_match_kw) auto
  moreover have "consumes (match READ s) s' [(ID, name_at (match READ s))]"
    "has_name (name_at (match READ s))"
    using consumes_match_ID[of "match READ s"] ne res by simp_all
  ultimately have "consumes s s' ([kw READ] @ [(ID, name_at (match READ s))])"
    "has_name (name_at (match READ s))"
    using consumes_trans by blast+
  then show "\<exists>n. t = Some n \<and> complete n \<and> sibling n = None \<and> consumes s s' (yield n)"
    using res by (simp add: yield_stmt_node complete_stmt_node)
qed

lemma good_write: "good write_stmt s"
proof (rule goodI)
  fix t s' assume r: "write_stmt s = (t, s')" and ne: "\<not> Error s'"
  obtain c0 s2 where x: "exp (match WRITE s) = (c0, s2)" by (cases "exp (match WRITE s)")
  have res: "t = Some (stmt_node WriteK NoAttr c0 None None)" "s' = s2"
    using write_stmt_unfold[OF x] r by simp_all
  have ne1: "\<not> Error (match WRITE s)" using no_Error_expr(1)[of "match WRITE s"] x ne res by simp
  obtain n0 where n0: "c0 = Some n0" "complete n0" "consumes (match WRITE s) s2 (yield n0)"
    using goodD[OF expr_good(1) x] ne res by blast
  have "consumes s (match WRITE s) [kw WRITE]"
    using ne1 by (intro consumes_match_kw) auto
  then have "consumes s s2 ([kw WRITE] @ yield n0)"
    using n0(3) consumes_trans by blast
  then show "\<exists>n. t = Some n \<and> complete n \<and> sibling n = None \<and> consumes s s' (yield n)"
    using res n0 by (simp add: yield_stmt_node complete_stmt_node)
qed

lemmas consumes_trans' [trans] = consumes_trans

lemma good_cong: "f s = g s \<Longrightarrow> good g s \<Longrightarrow> good f s"
  by (simp add: good_def)

lemma stmt_good:
  shows "good_seq s"
    and "good_seq_loop t s"
    and "good statement s"
    and "good if_stmt s"
    and "good repeat_stmt s"
    and "good while_stmt s"
    and "good dowhile_stmt s"
    and "good for_stmt s"
proof (induct s and t s and s and s and s and s and s and s
    rule: stmt_sequence_stmt_sequence_loop_statement_if_stmt_repeat_stmt_while_stmt_dowhile_stmt_for_stmt.induct)
  case (1 s)
  show ?case
  proof (rule good_seqI)
    fix t s' assume r: "stmt_sequence s = (t, s')" and ne: "\<not> Error s'"
    obtain q s1 where a: "statement s = (q, s1)" by (cases "statement s")
    have r': "stmt_sequence_loop q s1 = (t, s')" using stmt_sequence_unfold[OF a] r by simp
    have ne1: "\<not> Error s1" using no_Error_stmt(2)[of q s1] r' ne by simp
    obtain n0 where n0: "q = Some n0" "complete n0" "consumes s s1 (yield n0)"
      using goodD[OF 1(1) a ne1] by blast
    obtain n ys where "t = Some n" "complete n" "consumes s1 s' ys" "yield n = yield n0 @ ys"
      using good_seq_loopD[OF 1(2)[OF refl a[symmetric]] n0(1,2) r' ne] by blast
    then show "\<exists>n. t = Some n \<and> complete n \<and> consumes s s' (yield n)"
      using consumes_trans[OF n0(3)] by auto
  qed
next
  case (2 t s)
  show ?case
  proof (rule good_seq_loopI)
    fix n0 t' s'
    assume t: "t = Some n0" "complete n0"
      and r: "stmt_sequence_loop t s = (t', s')" and ne: "\<not> Error s'"
    show "\<exists>n ys. t' = Some n \<and> complete n \<and> consumes s s' ys \<and> yield n = yield n0 @ ys"
    proof (cases "terminator (token s)")
      case True
      then have "t' = t" "s' = s" using r by (simp_all add: stmt_sequence_loop_stop)
      then show ?thesis using t ne consumes_refl[of s] by auto
    next
      case False
      then have g: "token s \<noteq> ENDFILE \<and> token s \<noteq> END \<and> token s \<noteq> ELSE \<and> token s \<noteq> UNTIL
           \<and> token s \<noteq> WHILE \<and> token s \<noteq> ENDWHILE \<and> token s \<noteq> ENDDO"
        by (simp add: terminator_def)
      obtain q s2 where b: "statement (match SEMI s) = (q, s2)"
        by (cases "statement (match SEMI s)")
      have r': "stmt_sequence_loop (link_stmt t q) s2 = (t', s')"
        using stmt_sequence_loop_step[OF False b, of t] r by simp
      have ne2: "\<not> Error s2" using no_Error_stmt(2)[of "link_stmt t q" s2] r' ne by simp
      have nem: "\<not> Error (match SEMI s)"
        using no_Error_stmt(3)[of "match SEMI s"] b ne2 by simp
      from goodD[OF 2(1)[OF g refl] b ne2]
      obtain qn where q: "q = Some qn" "complete qn" "consumes (match SEMI s) s2 (yield qn)"
        by blast
      have l: "link_stmt t q = Some (link_last n0 qn)" using t q by (simp add: link_stmt_def)
      have cl: "complete (link_last n0 qn)" using t q by (simp add: complete_link_last)
      from good_seq_loopD[OF 2(2)[OF g refl refl b[symmetric]] l cl r' ne]
      obtain n ys where n: "t' = Some n" "complete n" "consumes s2 s' ys"
        "yield n = yield (link_last n0 qn) @ ys"
        by blast
      have "consumes s (match SEMI s) [kw SEMI]"
        using nem by (intro consumes_match_kw) auto
      also note q(3)
      also note n(3)
      finally have "consumes s s' ([kw SEMI] @ yield qn @ ys)" by simp
      then show ?thesis using n by (auto simp: yield_link_last)
    qed
  qed
next
  case (3 s)
  consider (a) "token s = IF" | (b) "token s = REPEAT" | (c) "token s = ID"
    | (d) "token s = READ" | (e) "token s = WRITE" | (f) "token s = WHILE"
    | (g) "token s = DO" | (h) "token s = FOR"
    | (i) "token s \<notin> {IF, REPEAT, ID, READ, WRITE, WHILE, DO, FOR}"
    by blast
  then show ?case
  proof cases
    case a
    then show ?thesis using 3(1) by (intro good_cong[of statement s if_stmt])
        (simp_all add: statement_unfold)
  next
    case b
    then show ?thesis using 3(2) by (intro good_cong[of statement s repeat_stmt])
        (simp_all add: statement_unfold)
  next
    case c
    then show ?thesis using good_assign by (intro good_cong[of statement s assign_stmt])
        (simp_all add: statement_unfold)
  next
    case d
    then show ?thesis using good_read by (intro good_cong[of statement s read_stmt])
        (simp_all add: statement_unfold)
  next
    case e
    then show ?thesis using good_write by (intro good_cong[of statement s write_stmt])
        (simp_all add: statement_unfold)
  next
    case f
    then show ?thesis using 3(3) by (intro good_cong[of statement s while_stmt])
        (simp_all add: statement_unfold)
  next
    case g
    then show ?thesis using 3(4) by (intro good_cong[of statement s dowhile_stmt])
        (simp_all add: statement_unfold)
  next
    case h
    then show ?thesis using 3(5) by (intro good_cong[of statement s for_stmt])
        (simp_all add: statement_unfold)
  next
    case i
    then have "Error (snd (statement s))"
      by (simp add: statement_other printToken_def syntaxError_def)
    then show ?thesis by (simp add: good_def)
  qed
next
  case (4 s)
  show ?case
  proof (rule goodI)
    fix t s' assume r: "if_stmt s = (t, s')" and ne: "\<not> Error s'"
    let ?a = "match LPAREN (match IF s)"
    obtain c0 s3 where x: "exp ?a = (c0, s3)" by (cases "exp ?a")
    let ?a5 = "match THEN_TOK (match RPAREN s3)"
    obtain c1 s6 where x1: "stmt_sequence ?a5 = (c1, s6)" by (cases "stmt_sequence ?a5")
    obtain c2 s8 where x2: "stmt_sequence (match ELSE s6) = (c2, s8)"
      by (cases "stmt_sequence (match ELSE s6)")
    note u = if_stmt_unfold[OF x x1 x2]
    have ne6: "\<not> Error s6"
    proof (cases "token s6 = ELSE")
      case True
      then have "s' = match END s8" using u r by simp
      then have "\<not> Error s8" using no_Error_match ne by blast
      then have "\<not> Error (match ELSE s6)"
        using no_Error_stmt(1)[of "match ELSE s6"] x2 by simp
      then show ?thesis by (rule no_Error_match)
    next
      case False
      then have "s' = match END s6" using u r by simp
      then show ?thesis using no_Error_match ne by blast
    qed
    have ne5: "\<not> Error ?a5" using no_Error_stmt(1)[of ?a5] x1 ne6 by simp
    have ne4: "\<not> Error (match RPAREN s3)" using no_Error_match[OF ne5] .
    have ne3: "\<not> Error s3" using no_Error_match[OF ne4] .
    have ne2: "\<not> Error ?a" using no_Error_expr(1)[of ?a] x ne3 by simp
    have ne1: "\<not> Error (match IF s)" using no_Error_match[OF ne2] .
    from goodD[OF expr_good(1) x ne3]
    obtain n0 where n0: "c0 = Some n0" "complete n0" "consumes ?a s3 (yield n0)" by blast
    from good_seqD[OF 4(1)[OF refl refl refl refl x[symmetric] refl refl refl] x1 ne6]
    obtain n1 where n1: "c1 = Some n1" "complete n1" "consumes ?a5 s6 (yield n1)" by blast
    have "consumes s (match IF s) [kw IF]" using ne1 by (intro consumes_match_kw) auto
    also have "consumes (match IF s) ?a []" using ne2 by (intro consumes_match_erased) auto
    also note n0(3)
    also have "consumes s3 (match RPAREN s3) []"
      using ne4 by (intro consumes_match_erased) auto
    also have "consumes (match RPAREN s3) ?a5 [kw THEN_TOK]"
      using ne5 by (intro consumes_match_kw) auto
    also note n1(3)
    finally have c6: "consumes s s6 ([kw IF] @ yield n0 @ [kw THEN_TOK] @ yield n1)"
      by simp
    show "\<exists>n. t = Some n \<and> complete n \<and> sibling n = None \<and> consumes s s' (yield n)"
    proof (cases "token s6 = ELSE")
      case True
      then have res: "t = Some (stmt_node IfK NoAttr c0 c1 c2)" "s' = match END s8"
        using u r by simp_all
      have ne8: "\<not> Error s8" using no_Error_match ne res by blast
      have ne7: "\<not> Error (match ELSE s6)"
        using no_Error_stmt(1)[of "match ELSE s6"] x2 ne8 by simp
      from good_seqD[OF 4(2)[OF refl refl refl refl x[symmetric] refl refl refl refl
            x1[symmetric] refl True refl] x2 ne8]
      obtain n2 where n2: "c2 = Some n2" "complete n2" "consumes (match ELSE s6) s8 (yield n2)"
        by blast
      note c6
      also have "consumes s6 (match ELSE s6) [kw ELSE]"
        using ne7 by (intro consumes_match_kw) auto
      also note n2(3)
      also have "consumes s8 s' [kw END]"
        using ne res by (simp add: consumes_match_kw)
      finally show ?thesis using res n0 n1 n2 by (simp add: yield_stmt_node complete_stmt_node)
    next
      case False
      then have res: "t = Some (stmt_node IfK NoAttr c0 c1 None)" "s' = match END s6"
        using u r by simp_all
      note c6
      also have "consumes s6 s' [kw END]"
        using ne res by (simp add: consumes_match_kw)
      finally show ?thesis using res n0 n1 by (simp add: yield_stmt_node complete_stmt_node)
    qed
  qed
next
  case (5 s)
  show ?case
  proof (rule goodI)
    fix t s' assume r: "repeat_stmt s = (t, s')" and ne: "\<not> Error s'"
    obtain c0 s2 where x: "stmt_sequence (match REPEAT s) = (c0, s2)"
      by (cases "stmt_sequence (match REPEAT s)")
    obtain c1 s4 where x1: "exp (match UNTIL s2) = (c1, s4)" by (cases "exp (match UNTIL s2)")
    have res: "t = Some (stmt_node RepeatK NoAttr c0 c1 None)" "s' = s4"
      using repeat_stmt_unfold[OF x x1] r by simp_all
    have ne4: "\<not> Error s4" using ne res by simp
    have ne3: "\<not> Error (match UNTIL s2)"
      using no_Error_expr(1)[of "match UNTIL s2"] x1 ne4 by simp
    have ne2: "\<not> Error s2" using no_Error_match[OF ne3] .
    have ne1: "\<not> Error (match REPEAT s)"
      using no_Error_stmt(1)[of "match REPEAT s"] x ne2 by simp
    from good_seqD[OF 5(1)[OF refl refl] x ne2]
    obtain n0 where n0: "c0 = Some n0" "complete n0" "consumes (match REPEAT s) s2 (yield n0)"
      by blast
    from goodD[OF expr_good(1) x1 ne4]
    obtain n1 where n1: "c1 = Some n1" "complete n1" "consumes (match UNTIL s2) s4 (yield n1)"
      by blast
    have "consumes s (match REPEAT s) [kw REPEAT]"
      using ne1 by (intro consumes_match_kw) auto
    also note n0(3)
    also have "consumes s2 (match UNTIL s2) [kw UNTIL]"
      using ne3 by (intro consumes_match_kw) auto
    also note n1(3)
    finally show "\<exists>n. t = Some n \<and> complete n \<and> sibling n = None \<and> consumes s s' (yield n)"
      using res n0 n1 by (simp add: yield_stmt_node complete_stmt_node)
  qed
next
  case (6 s)
  show ?case
  proof (rule goodI)
    fix t s' assume r: "while_stmt s = (t, s')" and ne: "\<not> Error s'"
    obtain c0 s2 where x: "exp (match WHILE s) = (c0, s2)" by (cases "exp (match WHILE s)")
    obtain c1 s4 where x1: "stmt_sequence (match DO s2) = (c1, s4)"
      by (cases "stmt_sequence (match DO s2)")
    have res: "t = Some (stmt_node WhileK NoAttr c0 c1 None)" "s' = match ENDWHILE s4"
      using while_stmt_unfold[OF x x1] r by simp_all
    have ne4: "\<not> Error s4" using no_Error_match ne res by blast
    have ne3: "\<not> Error (match DO s2)"
      using no_Error_stmt(1)[of "match DO s2"] x1 ne4 by simp
    have ne2: "\<not> Error s2" using no_Error_match[OF ne3] .
    have ne1: "\<not> Error (match WHILE s)"
      using no_Error_expr(1)[of "match WHILE s"] x ne2 by simp
    from goodD[OF expr_good(1) x ne2]
    obtain n0 where n0: "c0 = Some n0" "complete n0" "consumes (match WHILE s) s2 (yield n0)"
      by blast
    from good_seqD[OF 6(1)[OF refl refl refl x[symmetric] refl refl] x1 ne4]
    obtain n1 where n1: "c1 = Some n1" "complete n1" "consumes (match DO s2) s4 (yield n1)"
      by blast
    have "consumes s (match WHILE s) [kw WHILE]"
      using ne1 by (intro consumes_match_kw) auto
    also note n0(3)
    also have "consumes s2 (match DO s2) [kw DO]"
      using ne3 by (intro consumes_match_kw) auto
    also note n1(3)
    also have "consumes s4 s' [kw ENDWHILE]"
      using ne res by (simp add: consumes_match_kw)
    finally show "\<exists>n. t = Some n \<and> complete n \<and> sibling n = None \<and> consumes s s' (yield n)"
      using res n0 n1 by (simp add: yield_stmt_node complete_stmt_node)
  qed
next
  case (7 s)
  show ?case
  proof (rule goodI)
    fix t s' assume r: "dowhile_stmt s = (t, s')" and ne: "\<not> Error s'"
    obtain c0 s2 where x: "stmt_sequence (match DO s) = (c0, s2)"
      by (cases "stmt_sequence (match DO s)")
    let ?a = "match LPAREN (match WHILE s2)"
    obtain c1 s5 where x1: "exp ?a = (c1, s5)" by (cases "exp ?a")
    have res: "t = Some (stmt_node DoWhileK NoAttr c0 c1 None)" "s' = match RPAREN s5"
      using dowhile_stmt_unfold[OF x x1] r by simp_all
    have ne5: "\<not> Error s5" using no_Error_match ne res by blast
    have ne4: "\<not> Error ?a" using no_Error_expr(1)[of ?a] x1 ne5 by simp
    have ne3: "\<not> Error (match WHILE s2)" using no_Error_match[OF ne4] .
    have ne2: "\<not> Error s2" using no_Error_match[OF ne3] .
    have ne1: "\<not> Error (match DO s)"
      using no_Error_stmt(1)[of "match DO s"] x ne2 by simp
    from good_seqD[OF 7(1)[OF refl refl] x ne2]
    obtain n0 where n0: "c0 = Some n0" "complete n0" "consumes (match DO s) s2 (yield n0)"
      by blast
    from goodD[OF expr_good(1) x1 ne5]
    obtain n1 where n1: "c1 = Some n1" "complete n1" "consumes ?a s5 (yield n1)"
      by blast
    have "consumes s (match DO s) [kw DO]"
      using ne1 by (intro consumes_match_kw) auto
    also note n0(3)
    also have "consumes s2 (match WHILE s2) [kw WHILE]"
      using ne3 by (intro consumes_match_kw) auto
    also have "consumes (match WHILE s2) ?a []"
      using ne4 by (intro consumes_match_erased) auto
    also note n1(3)
    also have "consumes s5 s' []"
      using ne res by (simp add: consumes_match_erased)
    finally show "\<exists>n. t = Some n \<and> complete n \<and> sibling n = None \<and> consumes s s' (yield n)"
      using res n0 n1 by (simp add: yield_stmt_node complete_stmt_node)
  qed
next
  case (8 s)
  show ?case
  proof (rule goodI)
    fix t s' assume r: "for_stmt s = (t, s')" and ne: "\<not> Error s'"
    let ?a = "match ASSIGN (match ID (match FOR s))"
    obtain c0 s4 where x: "simple_exp ?a = (c0, s4)" by (cases "simple_exp ?a")
    obtain c1 s7 where x1: "simple_exp (after_direction s4) = (c1, s7)"
      by (cases "simple_exp (after_direction s4)")
    obtain c2 s9 where x2: "stmt_sequence (match DO s7) = (c2, s9)"
      by (cases "stmt_sequence (match DO s7)")
    have res: "t = Some (stmt_node ForK (name_at (match FOR s)) c0 c1 c2)"
      "s' = match ENDDO s9"
      using for_stmt_unfold[OF x x1 x2] r by simp_all
    have ne9: "\<not> Error s9" using no_Error_match ne res by blast
    have ne8: "\<not> Error (match DO s7)"
      using no_Error_stmt(1)[of "match DO s7"] x2 ne9 by simp
    have ne7: "\<not> Error s7" using no_Error_match[OF ne8] .
    have ne6: "\<not> Error (after_direction s4)"
      using no_Error_expr(2)[of "after_direction s4"] x1 ne7 by simp
    have ne4: "\<not> Error s4" using no_Error_after_direction[OF ne6] .
    have ne3: "\<not> Error ?a" using no_Error_expr(2)[of ?a] x ne4 by simp
    have ne2: "\<not> Error (match ID (match FOR s))" using no_Error_match[OF ne3] .
    have ne1: "\<not> Error (match FOR s)" using no_Error_match[OF ne2] .
    from goodD[OF expr_good(2) x ne4]
    obtain n0 where n0: "c0 = Some n0" "complete n0" "consumes ?a s4 (yield n0)" by blast
    from goodD[OF expr_good(2) x1 ne7]
    obtain n1 where n1: "c1 = Some n1" "complete n1"
      "consumes (after_direction s4) s7 (yield n1)" by blast
    have x1': "(c1, s7) = simple_exp (if token (if token s4 = TO then match TO s4 else s4) = DOWNTO
       then match DOWNTO (if token s4 = TO then match TO s4 else s4)
       else if token s4 = TO then match TO s4 else s4)"
      using x1 by (simp add: after_direction_def Let_def)
    from good_seqD[OF 8(1)[OF refl refl refl refl refl refl x[symmetric] refl refl refl refl
          x1' refl refl] x2 ne9]
    obtain n2 where n2: "c2 = Some n2" "complete n2" "consumes (match DO s7) s9 (yield n2)"
      by blast
    have hn: "has_name (name_at (match FOR s))"
      using consumes_match_ID[OF ne2] by simp
    have "consumes s (match FOR s) [kw FOR]"
      using ne1 by (intro consumes_match_kw) auto
    also have "consumes (match FOR s) (match ID (match FOR s)) [(ID, name_at (match FOR s))]"
      using consumes_match_ID[OF ne2] by simp
    also have "consumes (match ID (match FOR s)) ?a [kw ASSIGN]"
      using ne3 by (intro consumes_match_kw) auto
    also note n0(3)
    also have "consumes s4 (after_direction s4) []" using consumes_after_direction[OF ne6] .
    also note n1(3)
    also have "consumes s7 (match DO s7) [kw DO]"
      using ne8 by (intro consumes_match_kw) auto
    also note n2(3)
    also have "consumes s9 s' [kw ENDDO]"
      using ne res by (simp add: consumes_match_kw)
    finally have "consumes s s'
        ([kw FOR, (ID, name_at (match FOR s)), kw ASSIGN] @ yield n0 @ yield n1 @ [kw DO]
         @ yield n2 @ [kw ENDDO])"
      by simp
    then show "\<exists>n. t = Some n \<and> complete n \<and> sibling n = None \<and> consumes s s' (yield n)"
      using res n0 n1 n2 hn by (simp add: yield_stmt_node complete_stmt_node)
  qed
qed

lemma stream_at_end: "token s = ENDFILE \<Longrightarrow> stream s = []"
  by (simp add: stream_def)

lemma stream_first:
  "stream (getToken s) = takeWhile (\<lambda>t. fst t \<noteq> ENDFILE) (input s)"
  by (auto simp: stream_def getToken_def split: list.splits)

text \<open>
  C2. What a run of \<^verbatim>\<open>parse\<close> adds to the listing contains a line of
  \<^verbatim>\<open>syntaxError\<close> exactly if the flag is set at the end and was not set before. If
  the flag is not set at the end, \<^verbatim>\<open>parse\<close> returns a node; the node is complete
  (every child slot its variant requires is filled, down the whole tree and along the
  sibling chains); and its yield is the input with parentheses and directional
  keywords left out: every statement of the input is in the tree, in the order of
  the input.
\<close>

theorem complete_tree:
  "\<exists>new. listing (snd (parse s)) = listing s @ new
      \<and> (Error (snd (parse s)) \<longleftrightarrow> Error s \<or> (\<exists>m. SyntaxErrorLine m \<in> set new))
      \<and> (\<not> Error (snd (parse s)) \<longrightarrow>
           (\<exists>n. fst (parse s) = Some n \<and> complete n
               \<and> yield n = erase (takeWhile (\<lambda>t. fst t \<noteq> ENDFILE) (input s))))"
proof -
  obtain t s1 where q: "stmt_sequence (getToken s) = (t, s1)"
    by (cases "stmt_sequence (getToken s)")
  let ?msg = "''Code ends before file'' @ [CHR 0x0A]"
  have p: "parse s = (t, if token s1 \<noteq> ENDFILE then syntaxError ?msg s1 else s1)"
    using q by (simp add: parse_def)
  have "reports s s1"
    using reports_trans[OF reports_getToken reports_stmt(1), of s] q by simp
  then obtain new where n: "listing s1 = listing s @ new"
    "Error s1 \<longleftrightarrow> Error s \<or> (\<exists>m. SyntaxErrorLine m \<in> set new)"
    using reports_new by blast
  have tree: "\<exists>n. t = Some n \<and> complete n
               \<and> yield n = erase (takeWhile (\<lambda>t. fst t \<noteq> ENDFILE) (input s))"
    if e: "\<not> Error s1" "token s1 = ENDFILE"
  proof -
    obtain n where "t = Some n" "complete n" "consumes (getToken s) s1 (yield n)"
      using good_seqD[OF stmt_good(1) q e(1)] by blast
    then show ?thesis
      using e(2) by (auto simp: consumes_def stream_at_end stream_first)
  qed
  show ?thesis
  proof (cases "token s1 = ENDFILE")
    case True
    then show ?thesis using n tree by (intro exI[of _ new]) (simp add: p)
  next
    case False
    have "\<exists>m. SyntaxErrorLine m \<in> set (new @ [SyntaxErrorLine ?msg])" by auto
    then show ?thesis using False n(1)
      by (intro exI[of _ "new @ [SyntaxErrorLine ?msg]"]) (simp add: p syntaxError_def)
  qed
qed

theorem complete_tree_witness:
  "\<not> Error (snd (parse (fresh program)))
   \<and> listing (snd (parse (fresh program))) = []
   \<and> (\<exists>n. fst (parse (fresh program)) = Some n \<and> complete n \<and> yield n = erase program)"
  using complete_tree[of "fresh program"]
  by (simp add: program_def eval_stmt_rules erase_def item_of_def)


section \<open>At most one relational operator in an expression\<close>

lemma chained_Nil [simp]: "\<not> chained d []"
  by (simp add: chained_def)

lemma chained_Cons:
  "chained d (t # w) \<longleftrightarrow>
     (d = 0 \<and> relop (fst t)) \<or>
     (if fst t = LPAREN then chained (Suc d) w
      else if fst t = RPAREN then 0 < d \<and> chained (d - 1) w
      else (0 < d \<or> arith (fst t)) \<and> chained d w)"
proof
  assume "chained d (t # w)"
  then obtain m r post where h: "t # w = m @ r # post" "relop (fst r)" "arith_run (map fst m) d"
    unfolding chained_def by blast
  show "(d = 0 \<and> relop (fst t)) \<or>
     (if fst t = LPAREN then chained (Suc d) w
      else if fst t = RPAREN then 0 < d \<and> chained (d - 1) w
      else (0 < d \<or> arith (fst t)) \<and> chained d w)"
  proof (cases m)
    case Nil
    then show ?thesis using h by simp
  next
    case (Cons a m')
    then have e: "a = t" "w = m' @ r # post" using h(1) by simp_all
    have r: "arith_run (fst t # map fst m') d" using h(3) Cons e by simp
    have c: "arith_run (map fst m') k \<Longrightarrow> chained k w" for k
      unfolding chained_def using e(2) h(2) by blast
    have "if fst t = LPAREN then chained (Suc d) w
      else if fst t = RPAREN then 0 < d \<and> chained (d - 1) w
      else (0 < d \<or> arith (fst t)) \<and> chained d w"
      using r c by (simp split: if_splits)
    then show ?thesis by blast
  qed
next
  assume a: "(d = 0 \<and> relop (fst t)) \<or>
     (if fst t = LPAREN then chained (Suc d) w
      else if fst t = RPAREN then 0 < d \<and> chained (d - 1) w
      else (0 < d \<or> arith (fst t)) \<and> chained d w)"
  show "chained d (t # w)"
  proof (cases "d = 0 \<and> relop (fst t)")
    case True
    then show ?thesis unfolding chained_def
      by (intro exI[of _ "[]"] exI[of _ t] exI[of _ w]) simp
  next
    case False
    then have b: "if fst t = LPAREN then chained (Suc d) w
      else if fst t = RPAREN then 0 < d \<and> chained (d - 1) w
      else (0 < d \<or> arith (fst t)) \<and> chained d w"
      using a by blast
    let ?d' = "if fst t = LPAREN then Suc d else if fst t = RPAREN then d - 1 else d"
    have "chained ?d' w" using b by (auto split: if_splits)
    then obtain m r post where h: "w = m @ r # post" "relop (fst r)" "arith_run (map fst m) ?d'"
      unfolding chained_def by blast
    have "arith_run (map fst (t # m)) d" using h(3) b by (auto split: if_splits)
    then show ?thesis unfolding chained_def using h(1,2)
      by (intro exI[of _ "t # m"] exI[of _ r] exI[of _ post]) simp
  qed
qed

lemma before_chain_Nil [simp]: "\<not> before_chain []"
  by (simp add: before_chain_def)

lemma before_chain_Cons:
  "before_chain (t # w) \<longleftrightarrow> (relop (fst t) \<and> chained 0 w) \<or> before_chain w"
proof
  assume "before_chain (t # w)"
  then obtain pre r v where h: "t # w = pre @ r # v" "relop (fst r)" "chained 0 v"
    unfolding before_chain_def by blast
  show "(relop (fst t) \<and> chained 0 w) \<or> before_chain w"
  proof (cases pre)
    case Nil
    then show ?thesis using h by simp
  next
    case (Cons a pre')
    then have "w = pre' @ r # v" using h(1) by simp
    then show ?thesis using h(2,3) unfolding before_chain_def by blast
  qed
next
  assume "(relop (fst t) \<and> chained 0 w) \<or> before_chain w"
  then show "before_chain (t # w)"
  proof
    assume "relop (fst t) \<and> chained 0 w"
    then show ?thesis unfolding before_chain_def
      by (intro exI[of _ "[]"] exI[of _ t] exI[of _ w]) simp
  next
    assume "before_chain w"
    then obtain pre r v where h: "w = pre @ r # v" "relop (fst r)" "chained 0 v"
      unfolding before_chain_def by blast
    then show ?thesis unfolding before_chain_def
      by (intro exI[of _ "t # pre"] exI[of _ r] exI[of _ v]) simp
  qed
qed

lemma stream_cases:
  "stream s = (if token s = ENDFILE then [] else (token s, tokenString s) # stream (getToken s))"
  using stream_getToken[of s] stream_at_end[of s] by simp

lemma in_chain_unfold:
  "in_chain d s \<longleftrightarrow>
     token s \<noteq> ENDFILE \<and>
     ((d = 0 \<and> relop (token s)) \<or>
      (if token s = LPAREN then in_chain (Suc d) (getToken s)
       else if token s = RPAREN then 0 < d \<and> in_chain (d - 1) (getToken s)
       else (0 < d \<or> arith (token s)) \<and> in_chain d (getToken s)))"
  unfolding in_chain_def by (subst stream_cases) (simp add: chained_Cons)

lemma ahead_unfold:
  "ahead s \<longleftrightarrow>
     token s \<noteq> ENDFILE \<and> ((relop (token s) \<and> in_chain 0 (getToken s)) \<or> ahead (getToken s))"
  unfolding ahead_def in_chain_def by (subst stream_cases) (simp add: before_chain_Cons)

lemma ahead_getToken: "ahead s \<Longrightarrow> \<not> relop (token s) \<Longrightarrow> ahead (getToken s)"
  using ahead_unfold[of s] by simp

lemma ahead_relop: "ahead s \<Longrightarrow> ahead (getToken s) \<or> in_chain 0 (getToken s)"
  using ahead_unfold[of s] by blast

lemma in_chain_arith: "in_chain d s \<Longrightarrow> arith (token s) \<Longrightarrow> in_chain d (getToken s)"
  using in_chain_unfold[of d s] by (auto simp: relop_def arith_def)

lemma in_chain_open: "in_chain d s \<Longrightarrow> token s = LPAREN \<Longrightarrow> in_chain (Suc d) (getToken s)"
  using in_chain_unfold[of d s] by (auto simp: relop_def)

lemma in_chain_close: "in_chain (Suc d) s \<Longrightarrow> token s = RPAREN \<Longrightarrow> in_chain d (getToken s)"
  using in_chain_unfold[of "Suc d" s] by (auto simp: relop_def)

lemma in_chain_inner:
  "in_chain d s \<Longrightarrow> 0 < d \<Longrightarrow> token s \<noteq> LPAREN \<Longrightarrow> token s \<noteq> RPAREN \<Longrightarrow>
   in_chain d (getToken s)"
  using in_chain_unfold[of d s] by auto

lemma in_chain_0_token:
  "in_chain 0 s \<Longrightarrow> relop (token s) \<or> arith (token s) \<or> token s = LPAREN"
  using in_chain_unfold[of 0 s] by (auto split: if_splits)

lemma ahead_token: "ahead s \<Longrightarrow> token s \<noteq> ENDFILE"
  using ahead_unfold[of s] by simp

lemma Error_match: "Error s \<Longrightarrow> Error (match e s)"
  using no_Error_match by blast

lemma Error_mismatch: "token s \<noteq> e \<Longrightarrow> Error (match e s)"
  using match_no_Error by blast

lemma Error_skip [simp]: "Error (printToken (syntaxError m s))"
  by (simp add: printToken_def syntaxError_def)

lemma carries_refl: "carries s s"
  by (simp add: carries_def)

lemma carries_trans: "carries a b \<Longrightarrow> carries b c \<Longrightarrow> carries a c"
  unfolding carries_def by blast

lemma carries_enters: "carries s s' \<Longrightarrow> enters s s'"
  unfolding carries_def enters_def by blast

lemma carries_arith: "arith (token s) \<Longrightarrow> carries s (getToken s)"
  unfolding carries_def using ahead_getToken[of s] in_chain_arith[of _ s]
  by (auto simp: arith_def relop_def)

lemma carries_skip: "carries s (getToken (printToken (syntaxError m s)))"
  by (simp add: carries_def)

lemma carries_paren:
  assumes t: "token s = LPAREN" and e: "enters (getToken s) s2"
  shows "carries s (match RPAREN s2)"
  unfolding carries_def
proof (intro conjI impI allI)
  assume "Error s"
  then show "Error (match RPAREN s2)" using e Error_match by (simp add: enters_def)
next
  assume "ahead s"
  then have "ahead (getToken s)" using t ahead_getToken by (simp add: relop_def)
  then consider "Error s2" | "ahead s2" | "in_chain 0 s2" using e unfolding enters_def by blast
  then show "Error (match RPAREN s2) \<or> ahead (match RPAREN s2)"
  proof cases
    case 1
    then show ?thesis using Error_match by blast
  next
    case 2
    show ?thesis
    proof (cases "token s2 = RPAREN")
      case True
      then show ?thesis using 2 ahead_getToken[of s2] by (simp add: relop_def match_def)
    next
      case False
      then show ?thesis using Error_mismatch by blast
    qed
  next
    case 3
    then have "token s2 \<noteq> RPAREN" using in_chain_0_token[of s2] by (auto simp: relop_def arith_def)
    then show ?thesis using Error_mismatch by blast
  qed
next
  fix d
  assume "in_chain d s"
  then have "in_chain (Suc d) (getToken s)" using t in_chain_open by blast
  then consider "Error s2" | "in_chain (Suc d) s2" using e unfolding enters_def by blast
  then show "Error (match RPAREN s2) \<or> in_chain d (match RPAREN s2)"
  proof cases
    case 1
    then show ?thesis using Error_match by blast
  next
    case 2
    show ?thesis
    proof (cases "token s2 = RPAREN")
      case True
      then show ?thesis using 2 in_chain_close[of d s2] by (simp add: match_def)
    next
      case False
      then show ?thesis using Error_mismatch by blast
    qed
  qed
qed

lemma enters_relop:
  assumes a: "carries s s1" and r: "relop (token s1)" and b: "carries (getToken s1) s3"
  shows "enters s s3"
  unfolding enters_def
proof (intro conjI impI allI)
  assume "Error s"
  then show "Error s3" using a b by (simp add: carries_def)
next
  assume "ahead s"
  then consider "Error s1" | "ahead s1" using a unfolding carries_def by blast
  then show "Error s3 \<or> ahead s3 \<or> in_chain 0 s3"
  proof cases
    case 1
    then show ?thesis using b by (simp add: carries_def)
  next
    case 2
    then show ?thesis using ahead_relop[of s1] b unfolding carries_def by blast
  qed
next
  fix d :: nat
  assume d: "0 < d" and "in_chain d s"
  then consider "Error s1" | "in_chain d s1" using a unfolding carries_def by blast
  then show "Error s3 \<or> in_chain d s3"
  proof cases
    case 1
    then show ?thesis using b by (simp add: carries_def)
  next
    case 2
    have "token s1 \<noteq> LPAREN" "token s1 \<noteq> RPAREN" using r by (auto simp: relop_def)
    then have "in_chain d (getToken s1)" using 2 d in_chain_inner by blast
    then show ?thesis using b unfolding carries_def by blast
  qed
qed

lemma expr_chain:
  shows "enters s (snd (exp s))"
    and "carries s (snd (simple_exp s))"
    and "carries s (snd (simple_exp_loop t s))"
    and "carries s (snd (term_rule s))"
    and "carries s (snd (term_loop t s))"
    and "carries s (snd (factor s))"
proof (induct s and s and t s and s and t s and s
    rule: exp_simple_exp_simple_exp_loop_term_rule_term_loop_factor.induct)
  case (1 s)
  obtain t s1 where a: "simple_exp s = (t, s1)" by (cases "simple_exp s")
  have r1: "carries s s1" using 1(1) a by simp
  show ?case
  proof (cases "token s1 = LT \<or> token s1 = EQ \<or> token s1 = GT")
    case True
    obtain r s3 where b: "simple_exp (getToken s1) = (r, s3)"
      by (cases "simple_exp (getToken s1)")
    have "carries (getToken s1) s3"
      using 1(2)[OF refl a[symmetric] True refl refl] b by simp
    then have "enters s s3" using enters_relop[OF r1] True by (simp add: relop_def)
    then show ?thesis using exp_rel[OF a True b] by simp
  next
    case False
    then show ?thesis using exp_no_rel[OF a] carries_enters[OF r1] by simp
  qed
next
  case (2 s)
  obtain t s1 where a: "term_rule s = (t, s1)" by (cases "term_rule s")
  have "carries s1 (snd (simple_exp_loop t s1))" using 2(2)[OF refl a[symmetric]] .
  moreover have "carries s s1" using 2(1) a by simp
  ultimately have "carries s (snd (simple_exp_loop t s1))" by (rule carries_trans[rotated])
  then show ?case using a by (simp add: simple_exp.simps)
next
  case (3 t s)
  show ?case
  proof (cases "token s = PLUS \<or> token s = MINUS")
    case True
    let ?p = "set_attr (Op (token s)) (set_child0 t (newExpNode OpK))"
    obtain r s2 where b: "term_rule (match (token s) s) = (r, s2)"
      by (cases "term_rule (match (token s) s)")
    have c: "carries s2 (snd (simple_exp_loop (Some (set_child1 r ?p)) s2))"
      using 3(2)[OF True refl refl refl b[symmetric]] .
    have "carries (match (token s) s) s2" using 3(1)[OF True refl refl] b by simp
    moreover have "carries s (match (token s) s)"
      using True carries_arith[of s] by (auto simp: arith_def)
    ultimately have "carries s s2" by (rule carries_trans[rotated])
    then have "carries s (snd (simple_exp_loop (Some (set_child1 r ?p)) s2))"
      using c by (rule carries_trans)
    then show ?thesis using b True by (subst simple_exp_loop.simps) simp
  next
    case False
    then show ?thesis using carries_refl by (subst simple_exp_loop.simps) auto
  qed
next
  case (4 s)
  obtain t s1 where a: "factor s = (t, s1)" by (cases "factor s")
  have "carries s1 (snd (term_loop t s1))" using 4(2)[OF refl a[symmetric]] .
  moreover have "carries s s1" using 4(1) a by simp
  ultimately have "carries s (snd (term_loop t s1))" by (rule carries_trans[rotated])
  then show ?case using a by (simp add: term_rule.simps)
next
  case (5 t s)
  show ?case
  proof (cases "token s = TIMES \<or> token s = OVER \<or> token s = MOD")
    case True
    let ?p = "set_attr (Op (token s)) (set_child0 t (newExpNode OpK))"
    obtain r s2 where b: "factor (match (token s) s) = (r, s2)"
      by (cases "factor (match (token s) s)")
    have c: "carries s2 (snd (term_loop (Some (set_child1 r ?p)) s2))"
      using 5(2)[OF True refl refl refl b[symmetric]] .
    have "carries (match (token s) s) s2" using 5(1)[OF True refl refl] b by simp
    moreover have "carries s (match (token s) s)"
      using True carries_arith[of s] by (auto simp: arith_def)
    ultimately have "carries s s2" by (rule carries_trans[rotated])
    then have "carries s (snd (term_loop (Some (set_child1 r ?p)) s2))"
      using c by (rule carries_trans)
    then show ?thesis using b True by (subst term_loop.simps) simp
  next
    case False
    then show ?thesis using carries_refl by (subst term_loop.simps) auto
  qed
next
  case (6 s)
  show ?case
  proof (cases "token s = LPAREN")
    case True
    then have p: "token s \<noteq> NUM" "token s \<noteq> ID" "token s = LPAREN" by simp_all
    have "enters (match LPAREN s) (snd (exp (match LPAREN s)))" using 6(1)[OF p refl] .
    then have "enters (getToken s) (snd (exp (getToken s)))" using True by (simp add: match_def)
    then show ?thesis using carries_paren[OF True] True by (simp add: factor_unfold)
  next
    case False
    then show ?thesis using carries_arith[of s] carries_skip[of s]
      by (auto simp: factor_unfold arith_def)
  qed
qed

lemma leads_refl: "leads P P s s"
  by (simp add: leads_def)

lemma leads_trans: "leads P Q a b \<Longrightarrow> leads Q R b c \<Longrightarrow> leads P R a c"
  unfolding leads_def by blast

lemma leads_weaken: "leads P ahead a b \<Longrightarrow> leads P pending a b"
  unfolding leads_def pending_def by blast

lemma leads_skip: "leads P Q s (getToken (printToken (syntaxError m s)))"
  by (simp add: leads_def)

lemma leads_match: "\<not> relop e \<Longrightarrow> leads ahead ahead s (match e s)"
  unfolding leads_def using ahead_getToken[of s] Error_match[of s e]
  by (cases "token s = e") (auto simp: match_def printToken_def syntaxError_def)

lemma leads_close: "closing e \<Longrightarrow> leads pending ahead s (match e s)"
proof -
  assume c: "closing e"
  have "Error (match e s) \<or> ahead (match e s)" if "pending s"
  proof (cases "ahead s")
    case True
    then show ?thesis using leads_match[of e s] c by (simp add: leads_def closing_def)
  next
    case False
    then have "in_chain 0 s" using that by (simp add: pending_def)
    then have "token s \<noteq> e" using in_chain_0_token[of s] c by (auto simp: closing_def)
    then show ?thesis using Error_mismatch by blast
  qed
  then show ?thesis using Error_match[of s e] by (auto simp: leads_def)
qed

lemma leads_exp: "leads ahead pending s (snd (exp s))"
  using expr_chain(1)[of s] by (auto simp: leads_def enters_def pending_def)

lemma leads_simple_exp: "leads ahead ahead s (snd (simple_exp s))"
  using expr_chain(2)[of s] by (auto simp: leads_def carries_def)

lemma stmt_chain:
  shows "leads ahead ahead s (snd (stmt_sequence s))"
    and "leads pending ahead s (snd (stmt_sequence_loop t s))"
    and "leads ahead pending s (snd (statement s))"
    and "leads ahead pending s (snd (if_stmt s))"
    and "leads ahead pending s (snd (repeat_stmt s))"
    and "leads ahead pending s (snd (while_stmt s))"
    and "leads ahead pending s (snd (dowhile_stmt s))"
    and "leads ahead pending s (snd (for_stmt s))"
proof -
  have sm: "\<And>P a b e. leads P ahead a b \<Longrightarrow> \<not> relop e \<Longrightarrow> leads P ahead a (match e b)"
    by (rule leads_trans[OF _ leads_match])
  have sc: "\<And>P a b e. leads P pending a b \<Longrightarrow> closing e \<Longrightarrow> leads P ahead a (match e b)"
    by (rule leads_trans[OF _ leads_close])
  have se: "\<And>P a b. leads P ahead a b \<Longrightarrow> leads P pending a (snd (exp b))"
    by (rule leads_trans[OF _ leads_exp])
  have ss: "\<And>P a b. leads P ahead a b \<Longrightarrow> leads P ahead a (snd (simple_exp b))"
    by (rule leads_trans[OF _ leads_simple_exp])
  have so: "\<And>P a b k. leads P ahead a b \<Longrightarrow> \<not> relop k \<Longrightarrow>
      leads P ahead a (if token b = k then match k b else b)"
    using sm by simp
  have kw: "\<not> relop IF" "\<not> relop LPAREN" "\<not> relop RPAREN" "\<not> relop THEN_TOK" "\<not> relop ELSE"
    "\<not> relop END" "\<not> relop REPEAT" "\<not> relop UNTIL" "\<not> relop WHILE" "\<not> relop DO"
    "\<not> relop ENDWHILE" "\<not> relop FOR" "\<not> relop ID" "\<not> relop ASSIGN" "\<not> relop TO"
    "\<not> relop DOWNTO" "\<not> relop ENDDO" "\<not> relop READ" "\<not> relop WRITE" "\<not> relop SEMI"
    by (simp_all add: relop_def)
  have cl: "closing RPAREN" "closing DO" "closing SEMI"
    by (simp_all add: closing_def relop_def arith_def)
  show "leads ahead ahead s (snd (stmt_sequence s))"
    and "leads pending ahead s (snd (stmt_sequence_loop t s))"
    and "leads ahead pending s (snd (statement s))"
    and "leads ahead pending s (snd (if_stmt s))"
    and "leads ahead pending s (snd (repeat_stmt s))"
    and "leads ahead pending s (snd (while_stmt s))"
    and "leads ahead pending s (snd (dowhile_stmt s))"
    and "leads ahead pending s (snd (for_stmt s))"
  proof (induct s and t s and s and s and s and s and s and s
      rule: stmt_sequence_stmt_sequence_loop_statement_if_stmt_repeat_stmt_while_stmt_dowhile_stmt_for_stmt.induct)
    case (1 s)
    obtain t s1 where a: "statement s = (t, s1)" by (cases "statement s")
    have "leads pending ahead s1 (snd (stmt_sequence_loop t s1))"
      using 1(2)[OF refl a[symmetric]] .
    moreover have "leads ahead pending s s1" using 1(1) a by simp
    ultimately have "leads ahead ahead s (snd (stmt_sequence_loop t s1))"
      by (rule leads_trans[rotated])
    then show ?case using a by (simp add: stmt_sequence.simps)
  next
    case (2 t s)
    show ?case
    proof (cases "token s \<noteq> ENDFILE \<and> token s \<noteq> END \<and> token s \<noteq> ELSE \<and> token s \<noteq> UNTIL
           \<and> token s \<noteq> WHILE \<and> token s \<noteq> ENDWHILE \<and> token s \<noteq> ENDDO")
      case True
      obtain q s2 where b: "statement (match SEMI s) = (q, s2)"
        by (cases "statement (match SEMI s)")
      have "leads ahead pending (match SEMI s) s2" using 2(1)[OF True refl] b by simp
      then have "leads pending pending s s2" by (rule leads_trans[OF leads_close[OF cl(3)]])
      moreover have "leads pending ahead s2 (snd (stmt_sequence_loop (link_stmt t q) s2))"
        using 2(2)[OF True refl refl b[symmetric]] .
      ultimately have "leads pending ahead s (snd (stmt_sequence_loop (link_stmt t q) s2))"
        by (rule leads_trans)
      then show ?thesis using b True by (subst stmt_sequence_loop.simps) simp
    next
      case False
      then have "\<not> in_chain 0 s" using in_chain_0_token[of s] by (auto simp: relop_def arith_def)
      then have "leads pending ahead s s" by (simp add: leads_def pending_def)
      then show ?thesis using False by (subst stmt_sequence_loop.simps) auto
    qed
  next
    case (3 s)
    have "leads ahead pending s (snd (exp (match ASSIGN (match ID s))))"
      by (intro se sm leads_refl kw)
    then have "leads ahead pending s (snd (assign_stmt s))"
      by (simp add: assign_stmt_def Let_def case_prod_beta)
    moreover have "leads ahead pending s (match ID (match READ s))"
      by (intro leads_weaken sm leads_refl kw)
    then have "leads ahead pending s (snd (read_stmt s))" by (simp add: read_stmt_def Let_def)
    moreover have "leads ahead pending s (snd (exp (match WRITE s)))"
      by (intro se sm leads_refl kw)
    then have "leads ahead pending s (snd (write_stmt s))"
      by (simp add: write_stmt_def Let_def case_prod_beta)
    ultimately show ?case using 3 leads_skip by (simp add: statement.simps)
  next
    case (4 s)
    obtain c0 s3 where e1: "exp (match LPAREN (match IF s)) = (c0, s3)"
      by (cases "exp (match LPAREN (match IF s))")
    obtain c1 s6 where q1: "stmt_sequence (match THEN_TOK (match RPAREN s3)) = (c1, s6)"
      by (cases "stmt_sequence (match THEN_TOK (match RPAREN s3))")
    obtain c2 s8 where q2: "stmt_sequence (match ELSE s6) = (c2, s8)"
      by (cases "stmt_sequence (match ELSE s6)")
    have "leads ahead pending s (snd (exp (match LPAREN (match IF s))))"
      by (intro se sm leads_refl kw)
    then have "leads ahead pending s s3" using e1 by simp
    then have "leads ahead ahead s (match THEN_TOK (match RPAREN s3))"
      by (intro sm sc kw cl)
    moreover have "leads ahead ahead (match THEN_TOK (match RPAREN s3)) s6"
      using 4(1)[OF refl refl refl refl e1[symmetric] refl refl refl] q1 by simp
    ultimately have r6: "leads ahead ahead s s6" by (rule leads_trans)
    have res: "snd (if_stmt s) = (if token s6 = ELSE then match END s8 else match END s6)"
      using e1 q1 q2 by (simp add: if_stmt.simps Let_def)
    show ?case
    proof (cases "token s6 = ELSE")
      case True
      have "leads ahead ahead (match ELSE s6) s8"
        using 4(2)[OF refl refl refl refl e1[symmetric] refl refl refl refl q1[symmetric]
            refl True refl] q2 by simp
      then have "leads ahead ahead s s8" by (rule leads_trans[OF sm[OF r6 kw(5)]])
      then have "leads ahead pending s (match END s8)" by (intro leads_weaken sm kw)
      then show ?thesis using True by (simp add: res)
    next
      case False
      have "leads ahead pending s (match END s6)" using r6 by (intro leads_weaken sm kw)
      then show ?thesis using False by (simp add: res)
    qed
  next
    case (5 s)
    obtain c0 s2 where q1: "stmt_sequence (match REPEAT s) = (c0, s2)"
      by (cases "stmt_sequence (match REPEAT s)")
    have "leads ahead ahead (match REPEAT s) s2" using 5(1)[OF refl refl] q1 by simp
    then have "leads ahead ahead s s2" by (rule leads_trans[OF leads_match[OF kw(7)]])
    then have "leads ahead pending s (snd (exp (match UNTIL s2)))" by (intro se sm kw)
    moreover have res: "snd (repeat_stmt s) = snd (exp (match UNTIL s2))"
      using q1 by (simp add: repeat_stmt.simps Let_def case_prod_beta)
    ultimately show ?case by simp
  next
    case (6 s)
    obtain c0 s2 where e1: "exp (match WHILE s) = (c0, s2)" by (cases "exp (match WHILE s)")
    obtain c1 s4 where q1: "stmt_sequence (match DO s2) = (c1, s4)"
      by (cases "stmt_sequence (match DO s2)")
    have "leads ahead pending s (snd (exp (match WHILE s)))" by (intro se sm leads_refl kw)
    then have "leads ahead pending s s2" using e1 by simp
    then have "leads ahead ahead s (match DO s2)" by (intro sc cl)
    moreover have "leads ahead ahead (match DO s2) s4"
      using 6(1)[OF refl refl refl e1[symmetric] refl refl] q1 by simp
    ultimately have "leads ahead ahead s s4" by (rule leads_trans)
    then have "leads ahead pending s (match ENDWHILE s4)" by (intro leads_weaken sm kw)
    moreover have res: "snd (while_stmt s) = match ENDWHILE s4"
      using e1 q1 by (simp add: while_stmt.simps Let_def)
    ultimately show ?case by simp
  next
    case (7 s)
    obtain c0 s2 where q1: "stmt_sequence (match DO s) = (c0, s2)"
      by (cases "stmt_sequence (match DO s)")
    have "leads ahead ahead (match DO s) s2" using 7(1)[OF refl refl] q1 by simp
    then have "leads ahead ahead s s2" by (rule leads_trans[OF leads_match[OF kw(10)]])
    then have "leads ahead pending s (match RPAREN (snd (exp (match LPAREN (match WHILE s2)))))"
      by (intro leads_weaken sc se sm kw cl)
    moreover have res: "snd (dowhile_stmt s)
        = match RPAREN (snd (exp (match LPAREN (match WHILE s2))))"
      using q1 by (simp add: dowhile_stmt.simps Let_def case_prod_beta)
    ultimately show ?case by simp
  next
    case (8 s)
    obtain c0 s4 where e1: "simple_exp (match ASSIGN (match ID (match FOR s))) = (c0, s4)"
      by (cases "simple_exp (match ASSIGN (match ID (match FOR s)))")
    let ?s5 = "if token s4 = TO then match TO s4 else s4"
    let ?s6 = "if token ?s5 = DOWNTO then match DOWNTO ?s5 else ?s5"
    obtain c1 s7 where e2: "simple_exp ?s6 = (c1, s7)" by (cases "simple_exp ?s6")
    obtain c2 s9 where q1: "stmt_sequence (match DO s7) = (c2, s9)"
      by (cases "stmt_sequence (match DO s7)")
    have "leads ahead ahead s (snd (simple_exp (match ASSIGN (match ID (match FOR s)))))"
      by (intro ss sm leads_refl kw)
    then have "leads ahead ahead s s4" using e1 by simp
    then have "leads ahead ahead s ?s5" by (rule so[OF _ kw(15)])
    then have "leads ahead ahead s ?s6" by (rule so[OF _ kw(16)])
    then have "leads ahead ahead s (snd (simple_exp ?s6))" by (rule ss)
    then have "leads ahead ahead s s7" using e2 by simp
    then have "leads ahead ahead s (match DO s7)" by (intro sm kw)
    moreover have "leads ahead ahead (match DO s7) s9"
      using 8(1)[OF refl refl refl refl refl refl e1[symmetric] refl refl refl refl
          e2[symmetric] refl refl] q1 by simp
    ultimately have "leads ahead ahead s s9" by (rule leads_trans)
    then have "leads ahead pending s (match ENDDO s9)" by (intro leads_weaken sm kw)
    moreover have res: "snd (for_stmt s) = match ENDDO s9"
      using e1 e2 q1 by (simp add: for_stmt.simps Let_def)
    ultimately show ?case by simp
  qed
qed

lemma parse_listing:
  "\<exists>new. listing (snd (parse s)) = listing s @ new
      \<and> (Error (snd (parse s)) \<longleftrightarrow> Error s \<or> (\<exists>m. SyntaxErrorLine m \<in> set new))"
proof -
  obtain t s1 where q: "stmt_sequence (getToken s) = (t, s1)"
    by (cases "stmt_sequence (getToken s)")
  let ?msg = "''Code ends before file'' @ [CHR 0x0A]"
  have p: "parse s = (t, if token s1 \<noteq> ENDFILE then syntaxError ?msg s1 else s1)"
    using q by (simp add: parse_def)
  have "reports s s1"
    using reports_trans[OF reports_getToken reports_stmt(1), of s] q by simp
  then obtain new where n: "listing s1 = listing s @ new"
    "Error s1 \<longleftrightarrow> Error s \<or> (\<exists>m. SyntaxErrorLine m \<in> set new)"
    using reports_new by blast
  show ?thesis
  proof (cases "token s1 = ENDFILE")
    case True
    then show ?thesis using n by (intro exI[of _ new]) (simp add: p)
  next
    case False
    have "\<exists>m. SyntaxErrorLine m \<in> set (new @ [SyntaxErrorLine ?msg])" by auto
    then show ?thesis using False n(1)
      by (intro exI[of _ "new @ [SyntaxErrorLine ?msg]"]) (simp add: p syntaxError_def)
  qed
qed

lemma ahead_first:
  assumes "takeWhile (\<lambda>t. fst t \<noteq> ENDFILE) (input s) = pre @ r1 # mid @ r2 # post"
    and "relop (fst r1)" and "relop (fst r2)" and "arith_run (map fst mid) 0"
  shows "ahead (getToken s)"
proof -
  have "chained 0 (mid @ r2 # post)" unfolding chained_def using assms(3,4) by blast
  then show ?thesis unfolding ahead_def stream_first before_chain_def using assms(1,2) by blast
qed

lemma parse_chain: "ahead (getToken s) \<Longrightarrow> Error (snd (parse s))"
proof -
  assume a: "ahead (getToken s)"
  obtain t s1 where q: "stmt_sequence (getToken s) = (t, s1)"
    by (cases "stmt_sequence (getToken s)")
  let ?msg = "''Code ends before file'' @ [CHR 0x0A]"
  have p: "parse s = (t, if token s1 \<noteq> ENDFILE then syntaxError ?msg s1 else s1)"
    using q by (simp add: parse_def)
  have "Error s1 \<or> ahead s1" using stmt_chain(1)[of "getToken s"] a q by (simp add: leads_def)
  then show ?thesis using ahead_token[of s1] by (auto simp: p syntaxError_def)
qed

text \<open>
  C5. \<^verbatim>\<open>exp\<close> parses one simple expression; if the lookahead is then \<^verbatim>\<open><\<close>,
  \<^verbatim>\<open>=\<close> or \<^verbatim>\<open>>\<close> it consumes that one operator and parses one more simple
  expression, and it returns in either case, so that an expression has at most one
  relational operator. An input in which a relational operator is followed, at the
  same level of parentheses, by a second one (between the two stand only operands,
  arithmetic operators and parenthesised groups) is rejected: after \<^verbatim>\<open>parse\<close> the
  flag is set, and a run that started with the flag clear has added a line of
  \<^verbatim>\<open>syntaxError\<close> to the listing.
\<close>

theorem relational_no_chain:
  "exp s = (let (l, s1) = simple_exp s
            in if relop (token s1)
               then (let (r, s2) = simple_exp (getToken s1)
                     in (Some (op_node (token s1) l r), s2))
               else (l, s1))
   \<and> (takeWhile (\<lambda>t. fst t \<noteq> ENDFILE) (input s) = pre @ r1 # mid @ r2 # post
        \<and> relop (fst r1) \<and> relop (fst r2) \<and> arith_run (map fst mid) 0
      \<longrightarrow> Error (snd (parse s))
          \<and> (\<not> Error s \<longrightarrow>
               (\<exists>new m. listing (snd (parse s)) = listing s @ new
                    \<and> SyntaxErrorLine m \<in> set new)))"
proof (intro conjI impI)
  obtain l s1 where a: "simple_exp s = (l, s1)" by (cases "simple_exp s")
  obtain r s2 where b: "simple_exp (getToken s1) = (r, s2)" by (cases "simple_exp (getToken s1)")
  show "exp s = (let (l, s1) = simple_exp s
            in if relop (token s1)
               then (let (r, s2) = simple_exp (getToken s1)
                     in (Some (op_node (token s1) l r), s2))
               else (l, s1))"
  proof (cases "relop (token s1)")
    case True
    then show ?thesis using exp_rel[OF a _ b] a b by (simp add: relop_def)
  next
    case False
    then show ?thesis using exp_no_rel[OF a] a by (simp add: relop_def)
  qed
next
  assume h: "takeWhile (\<lambda>t. fst t \<noteq> ENDFILE) (input s) = pre @ r1 # mid @ r2 # post
        \<and> relop (fst r1) \<and> relop (fst r2) \<and> arith_run (map fst mid) 0"
  then have "ahead (getToken s)" using ahead_first by blast
  then show e: "Error (snd (parse s))" by (rule parse_chain)
  assume "\<not> Error s"
  then show "\<exists>new m. listing (snd (parse s)) = listing s @ new \<and> SyntaxErrorLine m \<in> set new"
    using e parse_listing[of s] by blast
qed

theorem relational_no_chain_witness:
  "takeWhile (\<lambda>t. fst t \<noteq> ENDFILE) (input (fresh chain))
     = [(WRITE, ''write''), (NUM, ''1'')] @ (LT, ''<'') # [(NUM, ''2'')] @ (LT, ''<'')
       # [(NUM, ''3'')]
   \<and> relop LT \<and> arith_run [NUM] 0 \<and> \<not> Error (fresh chain)
   \<and> Error (snd (parse (fresh chain)))
   \<and> (\<exists>m. SyntaxErrorLine m \<in> set (listing (snd (parse (fresh chain)))))"
  using relational_no_chain[of "fresh chain" "[(WRITE, ''write''), (NUM, ''1'')]" "(LT, ''<'')"
      "[(NUM, ''2'')]" "(LT, ''<'')" "[(NUM, ''3'')]"]
  by (auto simp: chain_def fresh_def relop_def arith_def)


section \<open>Precedence in every expression\<close>





lemma level_paren [simp]: "level LPAREN = 3" "level RPAREN = 3" "level NUM = 3" "level ID = 3"
  by (simp_all add: level_def)




















lemma listing_getToken [simp]: "listing (getToken s) = listing s"
  by (simp add: getToken_def split: list.splits)



lemma level_simps [simp]:
  "level LT = 0" "level EQ = 0" "level GT = 0" "level PLUS = 1" "level MINUS = 1"
  "level TIMES = 2" "level OVER = 2" "level MOD = 2"
  by (simp_all add: level_def)










end
